theory Spec2Isabelle
  imports Main "HOL-Library.Sublist"
begin

section \<open>Header model of go-mail (header.go)\<close>

text \<open>
  The development embeds \<^verbatim>\<open>header.go\<close>: the header parser \<^verbatim>\<open>ReadHeader\<close>, the verifier
  \<^verbatim>\<open>Verify\<close>/\<^verbatim>\<open>Valid\<close> and the repair engine \<^verbatim>\<open>Repair\<close>. A Go string is a list of
  bytes (\<^typ>\<open>string\<close>), Go's \<^verbatim>\<open>int\<close> indices are natural numbers (no index of the source
  ever goes below zero: the only decrement is guarded by \<^verbatim>\<open>j > 0\<close>), and a run-time panic
  of the Go program is the left summand of the result type.
\<close>

subsection \<open>Go run-time behaviour\<close>

datatype panic = IndexOutOfRange | SliceOutOfRange | NilDereference | TypeAssertion

text \<open>\<^verbatim>\<open>s[i]\<close>: panics when \<^verbatim>\<open>i >= len(s)\<close>.\<close>

definition index :: "string \<Rightarrow> nat \<Rightarrow> panic + char" where
  "index s i = (if i < length s then Inr (s ! i) else Inl IndexOutOfRange)"

text \<open>\<^verbatim>\<open>s[i:j]\<close>: panics unless \<^verbatim>\<open>i <= j <= len(s)\<close>.\<close>

definition slice :: "string \<Rightarrow> nat \<Rightarrow> nat \<Rightarrow> panic + string" where
  "slice s i j = (if i \<le> j \<and> j \<le> length s then Inr (take (j - i) (drop i s)) else Inl SliceOutOfRange)"

text \<open>
  \<^verbatim>\<open>strings.ToLower\<close> on ASCII text: the letters A to Z are mapped to a to z. The parser
  applies it to a field name (bytes 33 to 127 only) and to a four-byte token of such bytes
  followed by one more byte, which is compared with \<^verbatim>\<open>"from "\<close>: a non-ASCII fifth byte
  makes that comparison false both in Go and here.
\<close>

definition lower_byte :: "char \<Rightarrow> char" where
  "lower_byte c = (if (65::nat) \<le> of_char c \<and> of_char c \<le> (90::nat) then char_of (of_char c + (32::nat)) else c)"

definition ToLower :: "string \<Rightarrow> string" where
  "ToLower s = map lower_byte s"

text \<open>\<^verbatim>\<open>strings.HasPrefix\<close>.\<close>

definition HasPrefix :: "string \<Rightarrow> string \<Rightarrow> bool" where
  "HasPrefix s p = (take (length p) s = p)"

subsection \<open>Header\<close>

datatype HeaderMode = Rfc5322Header | MimeHeader

text \<open>\<^verbatim>\<open>h.err\<close> is \<^verbatim>\<open>nil\<close> (\<open>None\<close>) or an error carrying its message text.\<close>

record 'f Header =
  mode :: HeaderMode
  Fields :: "'f list"
  err :: "string option"
  verified :: bool

definition Add :: "'f Header \<Rightarrow> 'f \<Rightarrow> 'f Header" where
  "Add h f = h\<lparr>Fields := Fields h @ [f]\<rparr>"

subsection \<open>ReadHeader\<close>

text \<open>
  Modelled from the spec: \<^verbatim>\<open>simplify\<close> is not part of header.go; the spec calls its result
  the whitespace-collapsed, trimmed value. Runs of space, tab, carriage return and line feed
  become one space, and leading and trailing whitespace is removed.
\<close>

definition is_space :: "char \<Rightarrow> bool" where
  "is_space c = (c = CHR '' '' \<or> c = CHR 0x09 \<or> c = CHR 0x0D \<or> c = CHR 0x0A)"

fun collapse :: "string \<Rightarrow> string" where
  "collapse [] = []"
| "collapse (c # cs) =
     (if is_space c then
        (if list_all is_space cs then []
         else if is_space (hd cs) then collapse cs
         else CHR '' '' # collapse cs)
      else c # collapse cs)"

definition simplify :: "string \<Rightarrow> string" where
  "simplify s = collapse (dropWhile is_space s)"

text \<open>Line 41: the scan over a field name, bytes 33 to 127 other than the colon.\<close>

function scan_name :: "string \<Rightarrow> nat \<Rightarrow> nat" where
  "scan_name s j =
     (if j < length s \<and> (33::nat) \<le> of_char (s ! j) \<and> of_char (s ! j) \<le> (127::nat) \<and> s ! j \<noteq> CHR '':''
      then scan_name s (j + 1) else j)"
  by pat_completeness auto
termination
  by (relation "measure (\<lambda>(s, j). length s - j)") auto

declare scan_name.simps [simp del]

text \<open>Line 46: skip to the end of the mbox separator line.\<close>

function skip_line :: "string \<Rightarrow> nat \<Rightarrow> nat" where
  "skip_line s i =
     (if i < length s \<and> s ! i \<noteq> CHR 0x0D \<and> s ! i \<noteq> CHR 0x0A then skip_line s (i + 1) else i)"
  by pat_completeness auto
termination
  by (relation "measure (\<lambda>(s, i). length s - i)") auto

declare skip_line.simps [simp del]

text \<open>Line 49: \<^verbatim>\<open>for rfc5322[i] == '\r' { i++ }\<close>, with no test of \<^verbatim>\<open>i\<close> against the end.\<close>

function skip_cr :: "string \<Rightarrow> nat \<Rightarrow> panic + nat" where
  "skip_cr s i =
     (if i < length s then (if s ! i = CHR 0x0D then skip_cr s (i + 1) else Inr i)
      else Inl IndexOutOfRange)"
  by pat_completeness auto
termination
  by (relation "measure (\<lambda>(s, i). length s - i)") auto

declare skip_cr.simps [simp del]

text \<open>Line 59: \<^verbatim>\<open>for rfc5322[i] == ' ' || rfc5322[i] == '\t' { i++ }\<close>, again unguarded.\<close>

function skip_blanks :: "string \<Rightarrow> nat \<Rightarrow> panic + nat" where
  "skip_blanks s i =
     (if i < length s then
        (if s ! i = CHR '' '' \<or> s ! i = CHR 0x09 then skip_blanks s (i + 1) else Inr i)
      else Inl IndexOutOfRange)"
  by pat_completeness auto
termination
  by (relation "measure (\<lambda>(s, i). length s - i)") auto

declare skip_blanks.simps [simp del]

text \<open>Line 66: the end of the value, a line feed that no space or tab follows.\<close>

function scan_value :: "string \<Rightarrow> nat \<Rightarrow> nat" where
  "scan_value s j =
     (if j < length s \<and>
         (s ! j \<noteq> CHR 0x0A \<or>
          (j + 1 < length s \<and> (s ! (j + 1) = CHR '' '' \<or> s ! (j + 1) = CHR 0x09)))
      then scan_value s (j + 1) else j)"
  by pat_completeness auto
termination
  by (relation "measure (\<lambda>(s, j). length s - j)") auto

declare scan_value.simps [simp del]

text \<open>Lines 46 to 54: the mbox separator branch; the result is the new \<^verbatim>\<open>i\<close>.\<close>

definition skip_mbox :: "string \<Rightarrow> nat \<Rightarrow> panic + nat" where
  "skip_mbox s i =
     (case skip_cr s (skip_line s i) of
        Inl p \<Rightarrow> Inl p
      | Inr i1 \<Rightarrow>
          (case index s i1 of
             Inl p \<Rightarrow> Inl p
           | Inr c \<Rightarrow> Inr (if c = CHR 0x0A then i1 + 1 else i1)))"

text \<open>
  Lines 56 to 72: the field branch up to the computation of \<^verbatim>\<open>value\<close>, for a name that
  starts at \<^verbatim>\<open>i\<close> and whose colon is at \<^verbatim>\<open>j\<close>. The result is the name, the value and the
  index \<^verbatim>\<open>j\<close> where the value ends.
\<close>

definition read_field :: "string \<Rightarrow> nat \<Rightarrow> nat \<Rightarrow> panic + (string \<times> string \<times> nat)" where
  "read_field s i j =
     (case slice s i j of
        Inl p \<Rightarrow> Inl p
      | Inr name \<Rightarrow>
          (case skip_blanks s (j + 1) of
             Inl p \<Rightarrow> Inl p
           | Inr i1 \<Rightarrow>
               (let j1 = scan_value s i1 in
                (case (if j1 > 0 then index s (j1 - 1) else Inr (CHR '' '')) of
                   Inl p \<Rightarrow> Inl p
                 | Inr c \<Rightarrow>
                     (let j2 = (if j1 > 0 \<and> c = CHR 0x0D then j1 - 1 else j1) in
                      (case slice s i1 j2 of
                         Inl p \<Rightarrow> Inl p
                       | Inr v \<Rightarrow> Inr (name, v, j2)))))))"

text \<open>Line 74: the test that decides whether the field is added.\<close>

definition keep_field :: "string \<Rightarrow> string \<Rightarrow> bool" where
  "keep_field name v = (simplify v \<noteq> [] \<or> HasPrefix (ToLower name) ''x-'')"

text \<open>Lines 45 and 55: the two branch conditions, with Go's short-circuit evaluation.\<close>

definition is_mbox :: "string \<Rightarrow> HeaderMode \<Rightarrow> nat \<Rightarrow> nat \<Rightarrow> panic + bool" where
  "is_mbox s m i j =
     (if j = i + 4 \<and> m = Rfc5322Header then
        (case slice s i (j + 1) of Inl p \<Rightarrow> Inl p | Inr t \<Rightarrow> Inr (ToLower t = ''from ''))
      else Inr False)"

definition is_field :: "string \<Rightarrow> nat \<Rightarrow> nat \<Rightarrow> panic + bool" where
  "is_field s i j =
     (if j > i then (case index s j of Inl p \<Rightarrow> Inl p | Inr c \<Rightarrow> Inr (c = CHR '':''))
      else Inr False)"

text \<open>Lines 36 to 38: the byte order mark.\<close>

definition skip_bom :: "string \<Rightarrow> nat \<Rightarrow> nat" where
  "skip_bom s i =
     (if i + 2 < length s \<and> of_char (s ! i) = (0xEF::nat) \<and> of_char (s ! (i + 1)) = (0xBB::nat)
         \<and> of_char (s ! (i + 2)) = (0xBF::nat)
      then i + 3 else i)"

text \<open>
  Lines 31 to 85: one run of the body of \<^verbatim>\<open>for !done\<close>, from the index \<^verbatim>\<open>i\<close> and the header
  \<^verbatim>\<open>h\<close> to the new \<^verbatim>\<open>done\<close>, \<^verbatim>\<open>i\<close> and \<^verbatim>\<open>h\<close>. \<^verbatim>\<open>NewHeaderField\<close> is not part of
  header.go and is the parameter \<open>mk\<close>.
\<close>

definition ReadHeader_body ::
  "(string \<Rightarrow> string \<Rightarrow> 'f) \<Rightarrow> string \<Rightarrow> HeaderMode \<Rightarrow> nat \<Rightarrow> 'f Header \<Rightarrow> panic + (bool \<times> nat \<times> 'f Header)" where
  "ReadHeader_body mk s m i0 h =
     (let done = (i0 \<ge> length s);
          i = skip_bom s i0;
          j = scan_name s i
      in case is_mbox s m i j of
           Inl p \<Rightarrow> Inl p
         | Inr True \<Rightarrow>
             (case skip_mbox s i of Inl p \<Rightarrow> Inl p | Inr i' \<Rightarrow> Inr (done, i', h))
         | Inr False \<Rightarrow>
             (case is_field s i j of
                Inl p \<Rightarrow> Inl p
              | Inr True \<Rightarrow>
                  (case read_field s i j of
                     Inl p \<Rightarrow> Inl p
                   | Inr (name, v, j2) \<Rightarrow>
                       (let h' = (if keep_field name v then Add h (mk name v) else h);
                            i1 = (if j2 + 1 < length s \<and> s ! j2 = CHR 0x0D \<and> s ! (j2 + 1) = CHR 0x0A
                                  then j2 + 1 else j2)
                        in Inr (done, i1 + 1, h')))
              | Inr False \<Rightarrow> Inr (True, i, h)))"

lemma scan_name_ge: "i \<le> scan_name s i"
proof (induction s i rule: scan_name.induct)
  case (1 s j)
  then show ?case by (subst scan_name.simps) auto
qed

lemma scan_name_gt_in_range: "i < scan_name s i \<Longrightarrow> i < length s"
  by (subst (asm) scan_name.simps) (auto split: if_splits)

lemma scan_name_gt_not_eol:
  "i < scan_name s i \<Longrightarrow> s ! i \<noteq> CHR 0x0D \<and> s ! i \<noteq> CHR 0x0A"
  by (subst (asm) scan_name.simps) (auto split: if_splits)

lemma skip_line_ge: "i \<le> skip_line s i"
proof (induction s i rule: skip_line.induct)
  case (1 s i)
  then show ?case by (subst skip_line.simps) auto
qed

lemma skip_cr_ge: "skip_cr s i = Inr k \<Longrightarrow> i \<le> k"
proof (induction s i rule: skip_cr.induct)
  case (1 s i)
  from "1.prems" show ?case
    by (subst (asm) skip_cr.simps) (auto split: if_splits dest: "1.IH")
qed

lemma skip_blanks_ge: "skip_blanks s i = Inr k \<Longrightarrow> i \<le> k"
proof (induction s i rule: skip_blanks.induct)
  case (1 s i)
  from "1.prems" show ?case
    by (subst (asm) skip_blanks.simps) (auto split: if_splits dest: "1.IH")
qed

lemma scan_value_ge: "i \<le> scan_value s i"
proof (induction s i rule: scan_value.induct)
  case (1 s j)
  then show ?case by (subst scan_value.simps) auto
qed

text \<open>Every run of the loop body that does not set \<^verbatim>\<open>done\<close> moves \<^verbatim>\<open>i\<close> forward.\<close>

lemma is_mbox_gt: "is_mbox s m i j = Inr True \<Longrightarrow> j = i + 4"
  by (auto simp: is_mbox_def split: if_splits)

lemma is_field_gt: "is_field s i j = Inr True \<Longrightarrow> i < j"
  by (auto simp: is_field_def split: if_splits)

lemma skip_bom_ge: "i \<le> skip_bom s i"
  by (simp add: skip_bom_def)

lemma skip_line_gt: "i < scan_name s i \<Longrightarrow> i < skip_line s i"
proof -
  assume a: "i < scan_name s i"
  have "Suc i \<le> skip_line s (i + 1)" using skip_line_ge [of "i + 1" s] by simp
  with scan_name_gt_in_range [OF a] scan_name_gt_not_eol [OF a] show ?thesis
    by (subst skip_line.simps) auto
qed

lemma skip_mbox_gt: "i < scan_name s i \<Longrightarrow> skip_mbox s i = Inr k \<Longrightarrow> i < k"
  using skip_line_gt [of i s]
  by (auto simp: skip_mbox_def split: sum.splits dest!: skip_cr_ge)

lemma read_field_gt: "read_field s i j = Inr (name, v, j2) \<Longrightarrow> j \<le> j2"
proof -
  assume a: "read_field s i j = Inr (name, v, j2)"
  then obtain i1 where i1: "skip_blanks s (j + 1) = Inr i1"
    by (auto simp: read_field_def split: sum.splits)
  have "j + 1 \<le> i1" using skip_blanks_ge [OF i1] .
  moreover have "i1 \<le> scan_value s i1" by (rule scan_value_ge)
  moreover have "j2 = scan_value s i1 \<or> j2 = scan_value s i1 - 1"
    using a i1 by (auto simp: read_field_def Let_def split: sum.splits if_splits)
  ultimately show ?thesis by auto
qed

lemma ReadHeader_body_progress:
  assumes "ReadHeader_body mk s m i0 h = Inr (False, i', h')"
  shows "i0 < length s \<and> i0 < i'"
proof -
  let ?i = "skip_bom s i0"
  let ?j = "scan_name s ?i"
  have ge: "i0 \<le> ?i" by (rule skip_bom_ge)
  from assms have d: "i0 < length s"
    by (auto simp: ReadHeader_body_def Let_def split: sum.splits bool.splits prod.splits)
  have "i0 < i'"
  proof (cases "is_mbox s m ?i ?j")
    case (Inl p)
    with assms show ?thesis by (simp add: ReadHeader_body_def Let_def)
  next
    case (Inr b)
    show ?thesis
    proof (cases b)
      case True
      with Inr have "?j = ?i + 4" by (auto dest: is_mbox_gt)
      then have "?i < ?j" by simp
      moreover from assms Inr True have "skip_mbox s ?i = Inr i'"
        by (auto simp: ReadHeader_body_def Let_def split: sum.splits)
      ultimately have "?i < i'" by (rule skip_mbox_gt)
      with ge show ?thesis by simp
    next
      case False
      with assms Inr obtain name v j2 where f: "is_field s ?i ?j = Inr True"
        and r: "read_field s ?i ?j = Inr (name, v, j2)" and i': "j2 < i'"
        by (auto simp: ReadHeader_body_def Let_def split: sum.splits bool.splits prod.splits if_splits)
      from is_field_gt [OF f] read_field_gt [OF r] i' ge show ?thesis by simp
    qed
  qed
  with d show ?thesis by simp
qed

text \<open>Lines 30 to 86: the loop \<^verbatim>\<open>for !done\<close>.\<close>

function ReadHeader_loop ::
  "(string \<Rightarrow> string \<Rightarrow> 'f) \<Rightarrow> string \<Rightarrow> HeaderMode \<Rightarrow> bool \<Rightarrow> nat \<Rightarrow> 'f Header \<Rightarrow> panic + 'f Header" where
  "ReadHeader_loop mk s m done i h =
     (if done then Inr h
      else (case ReadHeader_body mk s m i h of
              Inl p \<Rightarrow> Inl p
            | Inr (done', i', h') \<Rightarrow> ReadHeader_loop mk s m done' i' h'))"
  by pat_completeness auto
termination
proof (relation "measure (\<lambda>(mk, s, m, done, i, h). if done then 0 else Suc (Suc (length s) - i))")
  show "wf (measure (\<lambda>(mk, s, m, done, i, h). if done then 0 else Suc (Suc (length s) - i)))"
    by simp
next
  fix mk :: "string \<Rightarrow> string \<Rightarrow> 'f" and s m "done" i h x2 done' y i' h'
  assume "\<not> done" and "ReadHeader_body mk s m i h = Inr x2" and "(done', y) = x2" and "(i', h') = y"
  then have b: "ReadHeader_body mk s m i h = Inr (done', i', h')" by simp
  show "((mk, s, m, done', i', h'), (mk, s, m, done, i, h))
        \<in> measure (\<lambda>(mk, s, m, done, i, h). if done then 0 else Suc (Suc (length s) - i))"
  proof (cases done')
    case True
    with \<open>\<not> done\<close> show ?thesis by simp
  next
    case False
    with b ReadHeader_body_progress [of mk s m i h i' h'] \<open>\<not> done\<close> show ?thesis by auto
  qed
qed

declare ReadHeader_loop.simps [simp del]

text \<open>Lines 23 to 89: \<^verbatim>\<open>ReadHeader\<close> returns the header and the error value \<^verbatim>\<open>nil\<close>.\<close>

definition ReadHeader ::
  "(string \<Rightarrow> string \<Rightarrow> 'f) \<Rightarrow> string \<Rightarrow> HeaderMode \<Rightarrow> panic + ('f Header \<times> string option)" where
  "ReadHeader mk s m =
     (case ReadHeader_loop mk s m False 0 \<lparr>mode = m, Fields = [], err = None, verified = False\<rparr> of
        Inl p \<Rightarrow> Inl p
      | Inr h \<Rightarrow> Inr (h, None))"

subsection \<open>Fields\<close>

text \<open>
  Modelled from the spec: the \<^verbatim>\<open>Address\<close> type is not part of header.go. The spec gives it a
  comparison key of the form local-part@domain, which \<^verbatim>\<open>lpdomain\<close> returns.
\<close>

record Address =
  localpart :: string
  domain :: string

definition lpdomain :: "Address \<Rightarrow> string" where
  "lpdomain a = localpart a @ ''@'' @ domain a"

text \<open>
  Modelled from the spec: the \<^verbatim>\<open>Field\<close> interface and its implementations are not part of
  header.go, which uses the methods \<^verbatim>\<open>Name\<close>, \<^verbatim>\<open>Valid\<close>, \<^verbatim>\<open>Error\<close>, \<^verbatim>\<open>rfc822\<close> and
  \<^verbatim>\<open>Parse\<close>, the dynamic types \<^verbatim>\<open>*AddressField\<close> (with \<^verbatim>\<open>Addresses\<close>) and \<^verbatim>\<open>*ContentType\<close>
  (with \<^verbatim>\<open>Type\<close>, \<^verbatim>\<open>Subtype\<close>, \<^verbatim>\<open>Parameters\<close>), and the comparison of two fields as
  pointers. A field is a record of what the methods return, of the data of its dynamic type
  and of the address \<open>ptr\<close> of the object: \<^verbatim>\<open>f != g\<close> is \<open>ptr f \<noteq> ptr g\<close>.
\<close>

record ContentType_data =
  Type :: string
  Subtype :: string
  Parameters :: "(string \<times> string) list"

datatype FieldBody =
    HeaderField
  | AddressField "Address list"
  | ContentTypeField ContentType_data
  | ContentTransferEncodingField
  | ContentDispositionField
  | ContentLanguageField

record Field =
  ptr :: nat
  Name :: string
  rfc822 :: string
  Field_Valid :: bool
  Error :: string
  body :: FieldBody

text \<open>
  Modelled from the spec: the field name constants are declared outside header.go; the
  spec names the fields.
\<close>

definition FromFieldName :: string where "FromFieldName = ''From''"
definition ResentFromFieldName :: string where "ResentFromFieldName = ''Resent-From''"
definition SenderFieldName :: string where "SenderFieldName = ''Sender''"
definition ResentSenderFieldName :: string where "ResentSenderFieldName = ''Resent-Sender''"
definition ReturnPathFieldName :: string where "ReturnPathFieldName = ''Return-Path''"
definition ReplyToFieldName :: string where "ReplyToFieldName = ''Reply-To''"
definition ToFieldName :: string where "ToFieldName = ''To''"
definition CcFieldName :: string where "CcFieldName = ''Cc''"
definition BccFieldName :: string where "BccFieldName = ''Bcc''"
definition ResentToFieldName :: string where "ResentToFieldName = ''Resent-To''"
definition ResentCcFieldName :: string where "ResentCcFieldName = ''Resent-Cc''"
definition ResentBccFieldName :: string where "ResentBccFieldName = ''Resent-Bcc''"
definition MessageIdFieldName :: string where "MessageIdFieldName = ''Message-Id''"
definition ContentIdFieldName :: string where "ContentIdFieldName = ''Content-Id''"
definition ResentMessageIdFieldName :: string where "ResentMessageIdFieldName = ''Resent-Message-Id''"
definition ReferencesFieldName :: string where "ReferencesFieldName = ''References''"
definition SubjectFieldName :: string where "SubjectFieldName = ''Subject''"
definition DateFieldName :: string where "DateFieldName = ''Date''"
definition MimeVersionFieldName :: string where "MimeVersionFieldName = ''Mime-Version''"
definition ContentTypeFieldName :: string where "ContentTypeFieldName = ''Content-Type''"
definition ContentTransferEncodingFieldName :: string where
  "ContentTransferEncodingFieldName = ''Content-Transfer-Encoding''"

lemmas field_name_defs =
  FromFieldName_def ResentFromFieldName_def SenderFieldName_def ResentSenderFieldName_def
  ReturnPathFieldName_def ReplyToFieldName_def ToFieldName_def CcFieldName_def BccFieldName_def
  ResentToFieldName_def ResentCcFieldName_def ResentBccFieldName_def MessageIdFieldName_def
  ContentIdFieldName_def ResentMessageIdFieldName_def ReferencesFieldName_def
  SubjectFieldName_def DateFieldName_def MimeVersionFieldName_def ContentTypeFieldName_def
  ContentTransferEncodingFieldName_def

text \<open>
  Modelled from the spec: the methods \<^verbatim>\<open>RemoveAt\<close>, \<^verbatim>\<open>Remove\<close> and \<^verbatim>\<open>RemoveAllNamed\<close> of
  the type \<^verbatim>\<open>Fields\<close> are not part of header.go. \<^verbatim>\<open>RemoveAt\<close> deletes the entry at an
  index, \<^verbatim>\<open>Remove\<close> deletes the entry that is the given field object, and
  \<^verbatim>\<open>RemoveAllNamed\<close> deletes every entry of the given name.
\<close>

definition RemoveAt :: "Field list \<Rightarrow> nat \<Rightarrow> Field list" where
  "RemoveAt fs i = take i fs @ drop (i + 1) fs"

fun Remove :: "Field list \<Rightarrow> Field \<Rightarrow> Field list" where
  "Remove [] f = []"
| "Remove (g # gs) f = (if ptr g = ptr f then gs else g # Remove gs f)"

definition RemoveAllNamed :: "Field list \<Rightarrow> string \<Rightarrow> Field list" where
  "RemoveAllNamed fs fn = filter (\<lambda>f. Name f \<noteq> fn) fs"

subsection \<open>Accessors\<close>

text \<open>Lines 102 to 114: the \<^verbatim>\<open>n\<close>-th field of name \<^verbatim>\<open>fn\<close>, or \<^verbatim>\<open>nil\<close>.\<close>

fun field_in :: "Field list \<Rightarrow> string \<Rightarrow> nat \<Rightarrow> Field option" where
  "field_in [] fn n = None"
| "field_in (f # fs) fn n =
     (if Name f = fn then (if n > 0 then field_in fs fn (n - 1) else Some f)
      else field_in fs fn n)"

definition field :: "Field Header \<Rightarrow> string \<Rightarrow> nat \<Rightarrow> Field option" where
  "field h fn n = field_in (Fields h) fn n"

text \<open>
  Lines 118 to 128: the type assertion \<^verbatim>\<open>f, _ := h.field(fn, n).(*AddressField)\<close> gives
  \<^verbatim>\<open>nil\<close> when there is no such field or when it is of another dynamic type.
\<close>

definition address_field_names :: "string list" where
  "address_field_names =
     [FromFieldName, ResentFromFieldName, SenderFieldName, ResentSenderFieldName,
      ReturnPathFieldName, ReplyToFieldName, ToFieldName, CcFieldName, BccFieldName,
      ResentToFieldName, ResentCcFieldName, ResentBccFieldName, MessageIdFieldName,
      ContentIdFieldName, ResentMessageIdFieldName, ReferencesFieldName]"

definition addressField :: "Field Header \<Rightarrow> string \<Rightarrow> nat \<Rightarrow> Address list option" where
  "addressField h fn n =
     (if fn \<in> set address_field_names then
        (case field h fn n of
           None \<Rightarrow> None
         | Some f \<Rightarrow> (case body f of AddressField as \<Rightarrow> Some as | _ \<Rightarrow> None))
      else None)"

text \<open>Lines 133 to 143: the empty list stands for both \<^verbatim>\<open>nil\<close> and the empty slice.\<close>

definition addresses :: "Field Header \<Rightarrow> string \<Rightarrow> Address list" where
  "addresses h fn = (case addressField h fn 0 of None \<Rightarrow> [] | Some as \<Rightarrow> as)"

text \<open>
  Lines 147 to 154: \<^verbatim>\<open>f.(*ContentType)\<close> panics when the field is of another dynamic type.
  A \<^verbatim>\<open>*ContentType\<close> is the address of the field with its data.
\<close>

definition as_ContentType :: "Field \<Rightarrow> panic + (nat \<times> ContentType_data)" where
  "as_ContentType f = (case body f of ContentTypeField d \<Rightarrow> Inr (ptr f, d) | _ \<Rightarrow> Inl TypeAssertion)"

definition ContentType :: "Field Header \<Rightarrow> panic + (nat \<times> ContentType_data) option" where
  "ContentType h =
     (case field h ContentTypeFieldName 0 of
        None \<Rightarrow> Inr None
      | Some f \<Rightarrow> (case as_ContentType f of Inl p \<Rightarrow> Inl p | Inr ct \<Rightarrow> Inr (Some ct)))"

subsection \<open>Verify\<close>

record HeaderFieldCondition =
  c_name :: string
  c_min :: int
  c_max :: int
  c_m :: HeaderMode

definition cond :: "string \<Rightarrow> int \<Rightarrow> int \<Rightarrow> HeaderMode \<Rightarrow> HeaderFieldCondition" where
  "cond n lo hi md = \<lparr>c_name = n, c_min = lo, c_max = hi, c_m = md\<rparr>"

text \<open>Lines 215 to 233.\<close>

definition conditions :: "HeaderFieldCondition list" where
  "conditions =
     [cond SenderFieldName 0 1 Rfc5322Header,
      cond ReplyToFieldName 0 1 Rfc5322Header,
      cond ToFieldName 0 1 Rfc5322Header,
      cond CcFieldName 0 1 Rfc5322Header,
      cond BccFieldName 0 1 Rfc5322Header,
      cond MessageIdFieldName 0 1 Rfc5322Header,
      cond ReferencesFieldName 0 1 Rfc5322Header,
      cond SubjectFieldName 0 1 Rfc5322Header,
      cond FromFieldName 1 1 Rfc5322Header,
      cond DateFieldName 1 1 Rfc5322Header,
      cond MimeVersionFieldName 0 1 Rfc5322Header,
      cond MimeVersionFieldName 0 1 MimeHeader,
      cond ContentTypeFieldName 0 1 Rfc5322Header,
      cond ContentTypeFieldName 0 1 MimeHeader,
      cond ContentTransferEncodingFieldName 0 1 Rfc5322Header,
      cond ContentTransferEncodingFieldName 0 1 MimeHeader,
      cond ReturnPathFieldName 0 1 Rfc5322Header]"

text \<open>The verb \<^verbatim>\<open>%d\<close> of \<^verbatim>\<open>fmt\<close>: an integer in decimal.\<close>

fun digits :: "nat \<Rightarrow> string" where
  "digits n = (if n < 10 then [''0123456789'' ! n] else digits (n div 10) @ [''0123456789'' ! (n mod 10)])"

declare digits.simps [simp del]

definition fmt_d :: "int \<Rightarrow> string" where
  "fmt_d k = (if k < 0 then CHR ''-'' # digits (nat (- k)) else digits (nat k))"

text \<open>
  Lines 251 to 254 and 292 to 295: \<^verbatim>\<open>occurrences[f.Name()]++\<close> for every field, on a map
  whose missing keys read as zero.
\<close>

definition occurrences :: "Field list \<Rightarrow> string \<Rightarrow> int" where
  "occurrences fs = foldl (\<lambda>occ f. occ(Name f := occ (Name f) + 1)) (\<lambda>_. 0) fs"

text \<open>
  Lines 256 to 270. In Go \<^verbatim>\<open>&&\<close> binds tighter than \<^verbatim>\<open>||\<close>: the condition of line 258 is
  \<^verbatim>\<open>(m == mode && count < min) || count > max\<close>.
\<close>

function verify_conditions :: "HeaderMode \<Rightarrow> (string \<Rightarrow> int) \<Rightarrow> string option \<Rightarrow> nat \<Rightarrow> string option" where
  "verify_conditions md occ e i =
     (if e = None \<and> i < length conditions then
        (let c = conditions ! i;
             e' = (if (c_m c = md \<and> occ (c_name c) < c_min c) \<or> occ (c_name c) > c_max c then
                     (if c_max c < occ (c_name c) then
                        Some (fmt_d (occ (c_name c)) @ '' '' @ c_name c @ '' fields seen. At most ''
                              @ fmt_d (c_max c) @ '' may be present.'')
                      else
                        Some (fmt_d (occ (c_name c)) @ '' '' @ c_name c @ '' fields seen. At least ''
                              @ fmt_d (c_min c) @ '' must be present.''))
                   else e)
         in verify_conditions md occ e' (i + 1))
      else e)"
  by pat_completeness auto
termination
  by (relation "measure (\<lambda>(md, occ, e, i). length conditions - i)") auto

declare verify_conditions.simps [simp del]

text \<open>Lines 237 to 280.\<close>

definition Verify :: "Field Header \<Rightarrow> Field Header" where
  "Verify h =
     (if verified h then h
      else
        (let h1 = h\<lparr>verified := True, err := None\<rparr> in
         (case find (\<lambda>f. \<not> Field_Valid f) (Fields h1) of
            Some f \<Rightarrow> h1\<lparr>err := Some (Name f @ '': '' @ Error f)\<rparr>
          | None \<Rightarrow> h1\<lparr>err := verify_conditions (mode h1) (occurrences (Fields h1)) None 0\<rparr>)))"

text \<open>Lines 93 to 96: the verdict and the header after \<^verbatim>\<open>Verify\<close>.\<close>

definition Valid :: "Field Header \<Rightarrow> bool \<times> Field Header" where
  "Valid h = (let h' = Verify h in (err h' = None, h'))"

subsection \<open>Repair\<close>

text \<open>
  Lines 304 to 315: the inner loop of the first step, for the name \<^verbatim>\<open>cn\<close> and the first
  field \<^verbatim>\<open>hf\<close> of that name. \<^verbatim>\<open>hf.rfc822(false)\<close> is evaluated only when \<^verbatim>\<open>n > 1\<close>.
\<close>

function remove_copies :: "string \<Rightarrow> Field option \<Rightarrow> Field list \<Rightarrow> nat \<Rightarrow> nat \<Rightarrow> panic + Field list" where
  "remove_copies cn hf fs j n =
     (if j < length fs then
        (if Name (fs ! j) = cn then
           (if n + 1 > 1 then
              (case hf of
                 None \<Rightarrow> Inl NilDereference
               | Some f0 \<Rightarrow>
                   (if rfc822 f0 = rfc822 (fs ! j) then remove_copies cn hf (RemoveAt fs j) j (n + 1)
                    else remove_copies cn hf fs (j + 1) (n + 1)))
            else remove_copies cn hf fs (j + 1) (n + 1))
         else remove_copies cn hf fs (j + 1) n)
      else Inr fs)"
  by pat_completeness auto
termination
  by (relation "measure (\<lambda>(cn, hf, fs, j, n). length fs - j)") (auto simp: RemoveAt_def)

declare remove_copies.simps [simp del]

text \<open>Lines 297 to 318: the first step, over the condition table.\<close>

function repair_duplicates :: "(string \<Rightarrow> int) \<Rightarrow> Field Header \<Rightarrow> nat \<Rightarrow> panic + Field Header" where
  "repair_duplicates occ h i =
     (if i < length conditions then
        (let c = conditions ! i in
         if c_m c = mode h \<and> occ (c_name c) > c_max c then
           (case remove_copies (c_name c) (field h (c_name c) 0) (Fields h) 0 0 of
              Inl p \<Rightarrow> Inl p
            | Inr fs' \<Rightarrow> repair_duplicates occ (h\<lparr>Fields := fs'\<rparr>) (i + 1))
         else repair_duplicates occ h (i + 1))
      else Inr h)"
  by pat_completeness auto
termination
  by (relation "measure (\<lambda>(occ, h, i). length conditions - i)") auto

declare repair_duplicates.simps [simp del]

text \<open>
  Lines 350 to 356 and 399 to 407: the loops that delete, from index \<^verbatim>\<open>i\<close> on, every field
  that satisfies the condition \<open>P\<close> of the \<^verbatim>\<open>if\<close>.
\<close>

function remove_where :: "(Field \<Rightarrow> bool) \<Rightarrow> Field list \<Rightarrow> nat \<Rightarrow> Field list" where
  "remove_where P fs i =
     (if i < length fs then
        (if P (fs ! i) then remove_where P (RemoveAt fs i) i else remove_where P fs (i + 1))
      else fs)"
  by pat_completeness auto
termination
  by (relation "measure (\<lambda>(P, fs, i). length fs - i)") (auto simp: RemoveAt_def)

declare remove_where.simps [simp del]

lemma field_in_Some_less: "field_in fs fn n = Some f \<Longrightarrow> n < length fs"
proof (induction fs arbitrary: n)
  case Nil
  then show ?case by simp
next
  case (Cons a fs)
  from Cons.prems Cons.IH [of "n - 1"] Cons.IH [of n] show ?case
    by (auto split: if_splits)
qed

text \<open>
  Lines 330 to 347: the scan of the Content-Type fields, from the state at the loop test:
  \<^verbatim>\<open>other\<close> is the Content-Type field of index \<^verbatim>\<open>n\<close>. The result is \<^verbatim>\<open>good\<close> and
  \<^verbatim>\<open>bad\<close>.
\<close>

function content_type_scan ::
  "Field Header \<Rightarrow> ContentType_data \<Rightarrow> (nat \<times> ContentType_data) option \<Rightarrow> (nat \<times> ContentType_data) option
     \<Rightarrow> bool \<Rightarrow> nat \<Rightarrow> panic + ((nat \<times> ContentType_data) option \<times> bool)" where
  "content_type_scan h ct other good bad n =
     (case other of
        None \<Rightarrow> Inr (good, bad)
      | Some ot \<Rightarrow>
          (if bad then Inr (good, bad)
           else
             (let differ = (Type (snd ot) \<noteq> Type ct \<or> Subtype (snd ot) \<noteq> Subtype ct);
                  params = (\<not> differ \<and> length (Parameters (snd ot)) > 0);
                  bad' = (differ \<or> (params \<and> good \<noteq> None));
                  good' = (if params then Some ot else good)
              in (case field h ContentTypeFieldName (n + 1) of
                    None \<Rightarrow> content_type_scan h ct None good' bad' (n + 1)
                  | Some tmp \<Rightarrow>
                      (case as_ContentType tmp of
                         Inl p \<Rightarrow> Inl p
                       | Inr t \<Rightarrow> content_type_scan h ct (Some t) good' bad' (n + 1))))))"
  by pat_completeness auto
termination
  by (relation "measure (\<lambda>(h, ct, other, good, bad, n).
        case other of None \<Rightarrow> 0 | Some _ \<Rightarrow> Suc (Suc (length (Fields h)) - n))")
     (auto simp: field_def dest: field_in_Some_less)

declare content_type_scan.simps [simp del]

text \<open>Lines 324 to 358: the second step.\<close>

definition repair_content_types :: "(string \<Rightarrow> int) \<Rightarrow> Field Header \<Rightarrow> panic + Field Header" where
  "repair_content_types occ h =
     (if occ ContentTypeFieldName > 1 then
        (case ContentType h of
           Inl p \<Rightarrow> Inl p
         | Inr None \<Rightarrow> Inr h
         | Inr (Some ct) \<Rightarrow>
             (case content_type_scan h (snd ct) (Some ct) None False 0 of
                Inl p \<Rightarrow> Inl p
              | Inr (good, bad) \<Rightarrow>
                  (case good of
                     None \<Rightarrow> Inr h
                   | Some g \<Rightarrow>
                       if \<not> bad then
                         Inr (h\<lparr>Fields :=
                                remove_where (\<lambda>f. Name f = ContentTypeFieldName \<and> ptr f \<noteq> fst g) (Fields h) 0\<rparr>)
                       else Inr h)))
      else Inr h)"

text \<open>Lines 381 to 409: the body of the loop of the third step, for one name.\<close>

definition first_valid_names :: "string list" where
  "first_valid_names =
     [DateFieldName, ReturnPathFieldName, MessageIdFieldName, ContentTypeFieldName, ReferencesFieldName]"

definition keep_first_valid :: "(string \<Rightarrow> int) \<Rightarrow> Field Header \<Rightarrow> string \<Rightarrow> Field Header" where
  "keep_first_valid occ h name =
     (if occ name > 1 \<and> name \<in> set first_valid_names then
        (case find (\<lambda>f. Name f = name \<and> Field_Valid f) (Fields h) of
           None \<Rightarrow> h
         | Some firstValid \<Rightarrow>
             (let alsoValid = (name \<noteq> ContentTypeFieldName) in
              h\<lparr>Fields :=
                  remove_where
                    (\<lambda>f. Name f = name \<and> ptr f \<noteq> ptr firstValid \<and> (alsoValid \<or> \<not> Field_Valid f))
                    (Fields h) 0\<rparr>))
      else h)"

text \<open>
  Lines 380 to 410: the third step. The table \<^verbatim>\<open>fieldNames\<close> is declared outside header.go
  and is a parameter.
\<close>

definition repair_first_valid :: "string list \<Rightarrow> (string \<Rightarrow> int) \<Rightarrow> Field Header \<Rightarrow> Field Header" where
  "repair_first_valid fieldNames occ h = foldl (keep_first_valid occ) h fieldNames"

text \<open>
  Lines 414 to 418: the fourth step. The method \<^verbatim>\<open>Parse\<close> of a field is not part of
  header.go and is a parameter; it changes the object \<^verbatim>\<open>fmv\<close>, so every entry of the list
  that is this object.
\<close>

definition mime_version_note :: "int \<Rightarrow> string" where
  "mime_version_note k =
     ''1.0 (Note: original message contained '' @ fmt_d k @ '' Mime-Version fields)''"

definition repair_mime_version ::
  "(Field \<Rightarrow> string \<Rightarrow> Field) \<Rightarrow> (string \<Rightarrow> int) \<Rightarrow> Field Header \<Rightarrow> panic + Field Header" where
  "repair_mime_version Parse occ h =
     (case field h MimeVersionFieldName 1 of
        None \<Rightarrow> Inr h
      | Some second \<Rightarrow>
          (let h' = h\<lparr>Fields := Remove (Fields h) second\<rparr> in
           (case field h' MimeVersionFieldName 0 of
              None \<Rightarrow> Inl NilDereference
            | Some fmv \<Rightarrow>
                Inr (h'\<lparr>Fields :=
                        map (\<lambda>f. if ptr f = ptr fmv
                                  then (Parse f (mime_version_note (occ MimeVersionFieldName)))\<lparr>ptr := ptr f\<rparr>
                                  else f) (Fields h')\<rparr>))))"

text \<open>
  Lines 423 to 428: the fifth step. In Go the condition of line 425 is
  \<^verbatim>\<open>(ct != nil && ct.Type == "multipart") || ct.Type == "message"\<close>: when the first
  disjunct is false, \<^verbatim>\<open>ct.Type\<close> is read whether or not \<^verbatim>\<open>ct\<close> is \<^verbatim>\<open>nil\<close>.
\<close>

definition repair_transfer_encoding :: "(string \<Rightarrow> int) \<Rightarrow> Field Header \<Rightarrow> panic + Field Header" where
  "repair_transfer_encoding occ h =
     (if occ ContentTransferEncodingFieldName > 0 then
        (case ContentType h of
           Inl p \<Rightarrow> Inl p
         | Inr ct \<Rightarrow>
             (if (case ct of None \<Rightarrow> False | Some c \<Rightarrow> Type (snd c) = ''multipart'') then
                Inr (h\<lparr>Fields := RemoveAllNamed (Fields h) ContentTransferEncodingFieldName\<rparr>)
              else
                (case ct of
                   None \<Rightarrow> Inl NilDereference
                 | Some c \<Rightarrow>
                     if Type (snd c) = ''message''
                     then Inr (h\<lparr>Fields := RemoveAllNamed (Fields h) ContentTransferEncodingFieldName\<rparr>)
                     else Inr h)))
      else Inr h)"

text \<open>Lines 447 to 454: the comparison loop, which runs while \<^verbatim>\<open>difference\<close> is true.\<close>

function sender_differs :: "string list \<Rightarrow> string list \<Rightarrow> nat \<Rightarrow> bool \<Rightarrow> bool" where
  "sender_differs from sender i difference =
     (if i < length sender \<and> difference then
        sender_differs from sender (i + 1) (if sender ! i \<notin> set from then True else difference)
      else difference)"
  by pat_completeness auto
termination
  by (relation "measure (\<lambda>(from, sender, i, difference). length sender - i)") auto

declare sender_differs.simps [simp del]

text \<open>
  Lines 434 to 458: the sixth step. Both \<^verbatim>\<open>from\<close> and \<^verbatim>\<open>sender\<close> are filled from
  \<^verbatim>\<open>h.addresses(FromFieldName)\<close>.
\<close>

definition repair_sender :: "(string \<Rightarrow> int) \<Rightarrow> Field Header \<Rightarrow> Field Header" where
  "repair_sender occ h =
     (let senders = addresses h SenderFieldName in
      if occ SenderFieldName > 0 \<and> length senders \<noteq> 1 then
        (let from = map (\<lambda>a. ToLower (lpdomain a)) (addresses h FromFieldName);
             sender = map (\<lambda>a. ToLower (lpdomain a)) (addresses h FromFieldName);
             difference = sender_differs from sender 0 False
         in if \<not> difference then h\<lparr>Fields := RemoveAllNamed (Fields h) SenderFieldName\<rparr> else h)
      else h)"

text \<open>Lines 284 to 459.\<close>

definition Repair :: "string list \<Rightarrow> (Field \<Rightarrow> string \<Rightarrow> Field) \<Rightarrow> Field Header \<Rightarrow> panic + Field Header" where
  "Repair fieldNames Parse h =
     (case Valid h of
        (True, h0) \<Rightarrow> Inr h0
      | (False, h0) \<Rightarrow>
          (let occ = occurrences (Fields h0) in
           (case repair_duplicates occ h0 0 of
              Inl p \<Rightarrow> Inl p
            | Inr h1 \<Rightarrow>
                (case repair_content_types occ h1 of
                   Inl p \<Rightarrow> Inl p
                 | Inr h2 \<Rightarrow>
                     (case repair_mime_version Parse occ (repair_first_valid fieldNames occ h2) of
                        Inl p \<Rightarrow> Inl p
                      | Inr h4 \<Rightarrow>
                          (case repair_transfer_encoding occ h4 of
                             Inl p \<Rightarrow> Inl p
                           | Inr h5 \<Rightarrow> Inr (repair_sender occ h5)))))))"

subsection \<open>The steps of Repair in the words of the spec\<close>

text \<open>
  List functions that say what the spec says of the steps; the lemmas below relate the loops
  of the code to them.
\<close>

text \<open>
  The first step in the words of the spec, for one name: the first occurrence stays, and
  every later occurrence with the rendering of the first is dropped.
\<close>

fun collapse_copies :: "string \<Rightarrow> Field list \<Rightarrow> Field list" where
  "collapse_copies cn [] = []"
| "collapse_copies cn (f # fs) =
     (if Name f = cn then f # filter (\<lambda>g. \<not> (Name g = cn \<and> rfc822 g = rfc822 f)) fs
      else f # collapse_copies cn fs)"

text \<open>The same on the fields of one name.\<close>

fun keep_first_and_different :: "Field list \<Rightarrow> Field list" where
  "keep_first_and_different [] = []"
| "keep_first_and_different (f # fs) = f # filter (\<lambda>g. rfc822 g \<noteq> rfc822 f) fs"

text \<open>
  The third step in the words of the spec, on the fields of one name: when some field is
  valid, only the first valid one stays, and with it, for Content-Type (\<open>alsoValid\<close>
  false), the other valid ones.
\<close>

definition prefer_first_valid :: "bool \<Rightarrow> Field list \<Rightarrow> Field list" where
  "prefer_first_valid alsoValid xs =
     (case find Field_Valid xs of
        None \<Rightarrow> xs
      | Some fv \<Rightarrow> filter (\<lambda>f. ptr f = ptr fv \<or> (\<not> alsoValid \<and> Field_Valid f)) xs)"

text \<open>
  Every rule of the condition table for the header's mode holds: the number of fields of
  the rule's name is between its minimum and its maximum.
\<close>

definition cardinality_rules_satisfied :: "Field Header \<Rightarrow> bool" where
  "cardinality_rules_satisfied h =
     list_all (\<lambda>c. if c_m c = mode h
                    then c_min c \<le> occurrences (Fields h) (c_name c)
                         \<and> occurrences (Fields h) (c_name c) \<le> c_max c
                    else True) conditions"

text \<open>Two headers that differ in their fields at most.\<close>

definition same_header :: "Field Header \<Rightarrow> Field Header \<Rightarrow> bool" where
  "same_header h h' = (mode h' = mode h \<and> err h' = err h \<and> verified h' = verified h)"

subsection \<open>Example headers\<close>

text \<open>
  Fields for the concrete headers of the theorems below: a valid unstructured field, a valid
  address field, and a header as \<^verbatim>\<open>ReadHeader\<close> leaves it, not yet verified.
\<close>

definition plain_field :: "nat \<Rightarrow> string \<Rightarrow> string \<Rightarrow> Field" where
  "plain_field p n v =
     \<lparr>ptr = p, Name = n, rfc822 = v, Field_Valid = True, Error = [], body = HeaderField\<rparr>"

definition address_field :: "nat \<Rightarrow> string \<Rightarrow> string \<Rightarrow> Address list \<Rightarrow> Field" where
  "address_field p n v as =
     \<lparr>ptr = p, Name = n, rfc822 = v, Field_Valid = True, Error = [], body = AddressField as\<rparr>"

definition new_header :: "HeaderMode \<Rightarrow> Field list \<Rightarrow> Field Header" where
  "new_header m fs = \<lparr>mode = m, Fields = fs, err = None, verified = False\<rparr>"

text \<open>
  A header in Rfc5322Header mode with two identical Subject fields, one From and one Date
  field, and the same header with the second Subject field removed and the verdict of
  \<^verbatim>\<open>Verify\<close> on the first.
\<close>

definition two_subjects :: "Field Header" where
  "two_subjects =
     new_header Rfc5322Header
       [plain_field 0 SubjectFieldName ''hello'',
        plain_field 1 SubjectFieldName ''hello'',
        address_field 2 FromFieldName ''a@example.org'' [\<lparr>localpart = ''a'', domain = ''example.org''\<rparr>],
        plain_field 3 DateFieldName ''Mon, 1 Jan 2024 00:00:00 +0000'']"

definition one_subject :: "Field Header" where
  "one_subject =
     \<lparr>mode = Rfc5322Header,
        Fields =
          [plain_field 0 SubjectFieldName ''hello'',
           address_field 2 FromFieldName ''a@example.org'' [\<lparr>localpart = ''a'', domain = ''example.org''\<rparr>],
           plain_field 3 DateFieldName ''Mon, 1 Jan 2024 00:00:00 +0000''],
        err = Some ''2 Subject fields seen. At most 1 may be present.'',
        verified = True\<rparr>"

text \<open>
  A header in Rfc5322Header mode with three identical Mime-Version fields, one From and one
  Date field, and the same header with only the first Mime-Version field and the verdict of
  \<^verbatim>\<open>Verify\<close> on the first.
\<close>

definition three_mime_versions :: "Field Header" where
  "three_mime_versions =
     new_header Rfc5322Header
       [plain_field 0 MimeVersionFieldName ''1.0'',
        plain_field 1 MimeVersionFieldName ''1.0'',
        plain_field 2 MimeVersionFieldName ''1.0'',
        address_field 3 FromFieldName ''a@example.org'' [\<lparr>localpart = ''a'', domain = ''example.org''\<rparr>],
        plain_field 4 DateFieldName ''Mon, 1 Jan 2024 00:00:00 +0000'']"

definition one_mime_version :: "Field Header" where
  "one_mime_version =
     \<lparr>mode = Rfc5322Header,
        Fields =
          [plain_field 0 MimeVersionFieldName ''1.0'',
           address_field 3 FromFieldName ''a@example.org'' [\<lparr>localpart = ''a'', domain = ''example.org''\<rparr>],
           plain_field 4 DateFieldName ''Mon, 1 Jan 2024 00:00:00 +0000''],
        err = Some ''3 Mime-Version fields seen. At most 1 may be present.'',
        verified = True\<rparr>"

text \<open>
  An invalid field, a Content-Type field, and a header (after \<^verbatim>\<open>Verify\<close>) with three Date
  fields of which the second and third are valid, four Content-Type fields of which the
  second and third are valid, and two invalid Message-Id fields.
\<close>

definition invalid_field :: "nat \<Rightarrow> string \<Rightarrow> string \<Rightarrow> Field" where
  "invalid_field p n v =
     \<lparr>ptr = p, Name = n, rfc822 = v, Field_Valid = False, Error = ''syntax error'', body = HeaderField\<rparr>"

definition content_type_field :: "nat \<Rightarrow> string \<Rightarrow> bool \<Rightarrow> ContentType_data \<Rightarrow> Field" where
  "content_type_field p v ok d =
     \<lparr>ptr = p, Name = ContentTypeFieldName, rfc822 = v, Field_Valid = ok,
        Error = (if ok then [] else ''syntax error''), body = ContentTypeField d\<rparr>"

definition dates_and_types :: "Field Header" where
  "dates_and_types =
     \<lparr>mode = Rfc5322Header,
        Fields =
          [invalid_field 0 DateFieldName ''yesterday'',
           plain_field 1 DateFieldName ''Mon, 1 Jan 2024 00:00:00 +0000'',
           plain_field 2 DateFieldName ''Tue, 2 Jan 2024 00:00:00 +0000'',
           content_type_field 3 ''text'' False \<lparr>Type = ''text'', Subtype = [], Parameters = []\<rparr>,
           content_type_field 4 ''text/plain'' True \<lparr>Type = ''text'', Subtype = ''plain'', Parameters = []\<rparr>,
           content_type_field 5 ''text/html'' True \<lparr>Type = ''text'', Subtype = ''html'', Parameters = []\<rparr>,
           content_type_field 6 ''html'' False \<lparr>Type = ''html'', Subtype = [], Parameters = []\<rparr>,
           invalid_field 7 MessageIdFieldName ''one'',
           invalid_field 8 MessageIdFieldName ''two''],
        err = Some ''Date: syntax error'',
        verified = True\<rparr>"

section \<open>Properties of the model\<close>

subsection \<open>ReadHeader\<close>

lemmas rh_eval = ReadHeader_def ReadHeader_loop.simps ReadHeader_body_def Let_def
  skip_bom_def is_mbox_def is_field_def read_field_def skip_mbox_def keep_field_def
  scan_name.simps skip_line.simps skip_cr.simps skip_blanks.simps scan_value.simps
  index_def slice_def ToLower_def lower_byte_def HasPrefix_def simplify_def is_space_def Add_def char_of_eq_iff

lemma ReadHeader_body_fields:
  assumes "ReadHeader_body mk s m i h = Inr (d, i', h')"
  shows "Fields h' = Fields h \<or> (\<exists>name v. keep_field name v \<and> Fields h' = Fields h @ [mk name v])"
proof -
  from assms have "h' = h \<or> (\<exists>name v. keep_field name v \<and> h' = Add h (mk name v))"
    by (simp add: ReadHeader_body_def Let_def split: sum.splits bool.splits prod.splits if_splits) blast+
  then show ?thesis by (fastforce simp: Add_def)
qed

lemma ReadHeader_loop_fields:
  "ReadHeader_loop mk s m d i h = Inr h' \<Longrightarrow>
   \<exists>nvs. list_all (\<lambda>(n, v). keep_field n v) nvs \<and> Fields h' = Fields h @ map (\<lambda>(n, v). mk n v) nvs"
proof (induction mk s m d i h rule: ReadHeader_loop.induct)
  case (1 mk s m d i h)
  show ?case
  proof (cases d)
    case True
    with "1.prems" have "h' = h" by (simp add: ReadHeader_loop.simps)
    then have "list_all (\<lambda>(n, v). keep_field n v) [] \<and> Fields h' = Fields h @ map (\<lambda>(n, v). mk n v) []"
      by simp
    then show ?thesis by blast
  next
    case False
    with "1.prems" obtain d1 i1 h1 where b: "ReadHeader_body mk s m i h = Inr (d1, i1, h1)"
      and l: "ReadHeader_loop mk s m d1 i1 h1 = Inr h'"
      by (subst (asm) ReadHeader_loop.simps) (auto split: sum.splits prod.splits)
    from "1.IH" [OF False b refl refl l] obtain nvs where
      nvs: "list_all (\<lambda>(n, v). keep_field n v) nvs" "Fields h' = Fields h1 @ map (\<lambda>(n, v). mk n v) nvs"
      by blast
    from ReadHeader_body_fields [OF b] show ?thesis
    proof
      assume "Fields h1 = Fields h"
      with nvs show ?thesis by auto
    next
      assume "\<exists>name v. keep_field name v \<and> Fields h1 = Fields h @ [mk name v]"
      then obtain name v where k: "keep_field name v" and f: "Fields h1 = Fields h @ [mk name v]"
        by blast
      from k nvs(1) have "list_all (\<lambda>(n, v). keep_field n v) ((name, v) # nvs)" by simp
      moreover from f nvs(2) have "Fields h' = Fields h @ map (\<lambda>(n, v). mk n v) ((name, v) # nvs)"
        by simp
      ultimately show ?thesis by blast
    qed
  qed
qed

lemma ReadHeader_body_field_branch:
  assumes "is_mbox s m (skip_bom s i0) (scan_name s (skip_bom s i0)) = Inr False"
    and "is_field s (skip_bom s i0) (scan_name s (skip_bom s i0)) = Inr True"
    and "read_field s (skip_bom s i0) (scan_name s (skip_bom s i0)) = Inr (name, v, j2)"
  shows "\<exists>d i'. ReadHeader_body mk s m i0 h =
           Inr (d, i', if simplify v \<noteq> [] \<or> HasPrefix (ToLower name) ''x-'' then Add h (mk name v) else h)"
  using assms by (simp add: ReadHeader_body_def Let_def keep_field_def)

subsection \<open>Repair\<close>

lemma foldl_occurrences:
  "foldl (\<lambda>occ f. occ(Name f := occ (Name f) + 1)) occ0 fs n
     = occ0 n + int (length (filter (\<lambda>f. Name f = n) fs))"
  by (induction fs arbitrary: occ0) auto

lemma occurrences_eq: "occurrences fs n = int (length (filter (\<lambda>f. Name f = n) fs))"
  by (simp add: occurrences_def foldl_occurrences)

lemma take_RemoveAt: "i < length fs \<Longrightarrow> take i (RemoveAt fs i) = take i fs"
  by (simp add: RemoveAt_def)

lemma drop_RemoveAt: "i < length fs \<Longrightarrow> drop i (RemoveAt fs i) = drop (Suc i) fs"
  by (simp add: RemoveAt_def)

lemma remove_where_eq: "remove_where P fs i = take i fs @ filter (\<lambda>f. \<not> P f) (drop i fs)"
proof (induction P fs i rule: remove_where.induct)
  case (1 P fs i)
  show ?case
  proof (cases "i < length fs")
    case False
    then show ?thesis by (subst remove_where.simps) simp
  next
    case True
    then have d: "drop i fs = fs ! i # drop (Suc i) fs" by (simp add: Cons_nth_drop_Suc)
    show ?thesis
    proof (cases "P (fs ! i)")
      case p: True
      with True "1.IH"(1) have "remove_where P (RemoveAt fs i) i
          = take i fs @ filter (\<lambda>f. \<not> P f) (drop (Suc i) fs)"
        by (simp add: take_RemoveAt drop_RemoveAt)
      with True p d show ?thesis by (subst remove_where.simps) simp
    next
      case p: False
      with True "1.IH"(2) have "remove_where P fs (i + 1)
          = take (Suc i) fs @ filter (\<lambda>f. \<not> P f) (drop (Suc i) fs)"
        by simp
      with True p d show ?thesis
        by (subst remove_where.simps) (simp add: take_Suc_conv_app_nth)
    qed
  qed
qed

lemma remove_where_filter: "remove_where P fs 0 = filter (\<lambda>f. \<not> P f) fs"
  by (simp add: remove_where_eq)

lemma remove_copies_later:
  "hf = Some f0 \<Longrightarrow> 0 < n \<Longrightarrow> remove_copies cn hf fs j n
     = Inr (take j fs @ filter (\<lambda>f. \<not> (Name f = cn \<and> rfc822 f = rfc822 f0)) (drop j fs))"
proof (induction cn hf fs j n rule: remove_copies.induct)
  case (1 cn hf fs j n)
  show ?case
  proof (cases "j < length fs")
    case False
    then show ?thesis by (subst remove_copies.simps) simp
  next
    case True
    then have d: "drop j fs = fs ! j # drop (Suc j) fs" by (simp add: Cons_nth_drop_Suc)
    show ?thesis
    proof (cases "Name (fs ! j) = cn")
      case nm: False
      with True "1.IH"(4) "1.prems" have "remove_copies cn hf fs (j + 1) n
          = Inr (take (Suc j) fs @ filter (\<lambda>f. \<not> (Name f = cn \<and> rfc822 f = rfc822 f0)) (drop (Suc j) fs))"
        by simp
      with True nm d show ?thesis
        by (subst remove_copies.simps) (simp add: take_Suc_conv_app_nth)
    next
      case nm: True
      show ?thesis
      proof (cases "rfc822 f0 = rfc822 (fs ! j)")
        case r: True
        with True nm "1.IH"(1) "1.prems" have "remove_copies cn hf (RemoveAt fs j) j (n + 1)
          = Inr (take j fs @ filter (\<lambda>f. \<not> (Name f = cn \<and> rfc822 f = rfc822 f0)) (drop (Suc j) fs))"
          by (simp add: take_RemoveAt drop_RemoveAt)
        with True nm r d "1.prems" show ?thesis by (subst remove_copies.simps) simp
      next
        case r: False
        with True nm "1.IH"(2) "1.prems" have "remove_copies cn hf fs (j + 1) (n + 1)
          = Inr (take (Suc j) fs @ filter (\<lambda>f. \<not> (Name f = cn \<and> rfc822 f = rfc822 f0)) (drop (Suc j) fs))"
          by simp
        with True nm r d "1.prems" show ?thesis
          by (subst remove_copies.simps) (auto simp: take_Suc_conv_app_nth)
      qed
    qed
  qed
qed

lemma remove_copies_first:
  "n = 0 \<Longrightarrow> field_in (drop j fs) cn 0 \<noteq> None \<longrightarrow> hf = field_in (drop j fs) cn 0 \<Longrightarrow>
   remove_copies cn hf fs j n = Inr (take j fs @ collapse_copies cn (drop j fs))"
proof (induction cn hf fs j n rule: remove_copies.induct)
  case (1 cn hf fs j n)
  show ?case
  proof (cases "j < length fs")
    case False
    then show ?thesis by (subst remove_copies.simps) simp
  next
    case True
    then have d: "drop j fs = fs ! j # drop (Suc j) fs" by (simp add: Cons_nth_drop_Suc)
    show ?thesis
    proof (cases "Name (fs ! j) = cn")
      case nm: False
      with d "1.prems" have "field_in (drop (j + 1) fs) cn 0 \<noteq> None \<longrightarrow> hf = field_in (drop (j + 1) fs) cn 0"
        by simp
      with True nm "1.IH"(4) "1.prems"(1)
      have "remove_copies cn hf fs (j + 1) n = Inr (take (j + 1) fs @ collapse_copies cn (drop (j + 1) fs))"
        by simp
      with True nm d show ?thesis
        by (subst remove_copies.simps)
           (simp add: take_Suc_conv_app_nth)
    next
      case nm: True
      with d "1.prems" have hf: "hf = Some (fs ! j)" by simp
      have "remove_copies cn hf fs (j + 1) (0 + 1)
          = Inr (take (j + 1) fs @ filter (\<lambda>f. \<not> (Name f = cn \<and> rfc822 f = rfc822 (fs ! j))) (drop (j + 1) fs))"
        using hf by (intro remove_copies_later) simp_all
      with True nm d hf "1.prems"(1) show ?thesis
        by (subst remove_copies.simps)
           (simp add: take_Suc_conv_app_nth)
    qed
  qed
qed

lemma remove_copies_eq:
  "remove_copies cn (field_in fs cn 0) fs 0 0 = Inr (collapse_copies cn fs)"
  using remove_copies_first [of 0 0 fs cn "field_in fs cn 0"] by simp

lemma repair_duplicates_eq:
  "repair_duplicates occ h i =
     Inr (h\<lparr>Fields := foldl (\<lambda>fs c. collapse_copies (c_name c) fs) (Fields h)
                          (filter (\<lambda>c. c_m c = mode h \<and> occ (c_name c) > c_max c) (drop i conditions))\<rparr>)"
proof (induction occ h i rule: repair_duplicates.induct)
  case (1 occ h i)
  show ?case
  proof (cases "i < length conditions")
    case False
    then show ?thesis by (subst repair_duplicates.simps) simp
  next
    case True
    then have d: "drop i conditions = conditions ! i # drop (Suc i) conditions"
      by (simp add: Cons_nth_drop_Suc)
    let ?c = "conditions ! i"
    show ?thesis
    proof (cases "c_m ?c = mode h \<and> occ (c_name ?c) > c_max ?c")
      case c: True
      have r: "remove_copies (c_name ?c) (field h (c_name ?c) 0) (Fields h) 0 0
                 = Inr (collapse_copies (c_name ?c) (Fields h))"
        by (simp add: field_def remove_copies_eq)
      from "1.IH"(1) [OF True refl c r]
      have "repair_duplicates occ (h\<lparr>Fields := collapse_copies (c_name ?c) (Fields h)\<rparr>) (i + 1)
          = Inr (h\<lparr>Fields := foldl (\<lambda>fs c. collapse_copies (c_name c) fs)
                                  (collapse_copies (c_name ?c) (Fields h))
                                  (filter (\<lambda>c. c_m c = mode h \<and> occ (c_name c) > c_max c)
                                     (drop (Suc i) conditions))\<rparr>)"
        by simp
      with True c r d show ?thesis
        by (subst repair_duplicates.simps) (simp add: Let_def)
    next
      case c: False
      from "1.IH"(2) [OF True refl c] True c d show ?thesis
        by (subst repair_duplicates.simps) (auto simp: Let_def)
    qed
  qed
qed

lemma filter_collapse_copies_same:
  "filter (\<lambda>f. Name f = cn) (collapse_copies cn fs) = keep_first_and_different (filter (\<lambda>f. Name f = cn) fs)"
proof (induction fs)
  case Nil
  then show ?case by simp
next
  case (Cons f fs)
  have "filter (\<lambda>g. Name g = Name f) (filter (\<lambda>g. \<not> (Name g = Name f \<and> rfc822 g = rfc822 f)) fs)
      = filter (\<lambda>g. rfc822 g \<noteq> rfc822 f) (filter (\<lambda>g. Name g = Name f) fs)"
    by (induction fs) auto
  with Cons show ?case by auto
qed

lemma filter_collapse_copies_other:
  "cn' \<noteq> cn \<Longrightarrow> filter (\<lambda>f. Name f = cn) (collapse_copies cn' fs) = filter (\<lambda>f. Name f = cn) fs"
proof (induction fs)
  case Nil
  then show ?case by simp
next
  case (Cons f fs)
  have "filter (\<lambda>g. Name g = cn) (filter (\<lambda>g. \<not> (Name g = cn' \<and> rfc822 g = rfc822 f)) fs)
      = filter (\<lambda>g. Name g = cn) fs" if "cn' \<noteq> cn"
    using that by (induction fs) auto
  with Cons show ?case by auto
qed

lemma keep_first_and_different_idem:
  "keep_first_and_different (keep_first_and_different fs) = keep_first_and_different fs"
  by (cases fs) auto

lemma filter_foldl_collapse_copies:
  "filter (\<lambda>f. Name f = cn) (foldl (\<lambda>fs c. collapse_copies (c_name c) fs) fs cs)
     = (if cn \<in> c_name ` set cs
        then keep_first_and_different (filter (\<lambda>f. Name f = cn) fs)
        else filter (\<lambda>f. Name f = cn) fs)"
proof (induction cs arbitrary: fs)
  case Nil
  then show ?case by simp
next
  case (Cons c cs)
  show ?case
  proof (cases "c_name c = cn")
    case True
    with Cons [of "collapse_copies (c_name c) fs"] show ?thesis
      by (simp add: filter_collapse_copies_same keep_first_and_different_idem)
  next
    case False
    with Cons [of "collapse_copies (c_name c) fs"] show ?thesis
      by (simp add: filter_collapse_copies_other)
  qed
qed

lemma conditions_max: "c \<in> set conditions \<Longrightarrow> c_max c = 1"
  by (auto simp: conditions_def cond_def)

lemma repair_duplicates_filter:
  assumes "repair_duplicates (occurrences (Fields h)) h 0 = Inr h'"
  shows "filter (\<lambda>f. Name f = cn) (Fields h') =
     (if (\<exists>c\<in>set conditions. c_name c = cn \<and> c_m c = mode h)
         \<and> 1 < length (filter (\<lambda>f. Name f = cn) (Fields h))
      then keep_first_and_different (filter (\<lambda>f. Name f = cn) (Fields h))
      else filter (\<lambda>f. Name f = cn) (Fields h))"
proof -
  let ?occ = "occurrences (Fields h)"
  let ?cs = "filter (\<lambda>c. c_m c = mode h \<and> ?occ (c_name c) > c_max c) conditions"
  from assms have h': "Fields h' = foldl (\<lambda>fs c. collapse_copies (c_name c) fs) (Fields h) ?cs"
    by (auto simp: repair_duplicates_eq)
  have "cn \<in> c_name ` set ?cs \<longleftrightarrow>
      (\<exists>c\<in>set conditions. c_name c = cn \<and> c_m c = mode h) \<and> 1 < length (filter (\<lambda>f. Name f = cn) (Fields h))"
    by (auto simp: occurrences_eq conditions_max)
  with h' show ?thesis by (simp add: filter_foldl_collapse_copies)
qed

lemma filter_name_filter:
  "(\<And>f. Name f = cn \<Longrightarrow> Q f) \<Longrightarrow>
   filter (\<lambda>f. Name f = cn) (filter Q fs) = filter (\<lambda>f. Name f = cn) fs"
  by (induction fs) auto

lemma field_in_filter:
  "field_in fs cn n =
     (if n < length (filter (\<lambda>f. Name f = cn) fs) then Some (filter (\<lambda>f. Name f = cn) fs ! n) else None)"
proof (induction fs arbitrary: n)
  case Nil
  then show ?case by simp
next
  case (Cons f fs)
  show ?case by (cases n) (auto simp: Cons)
qed

text \<open>Every step changes the field list only.\<close>

lemma repair_duplicates_header:
  "repair_duplicates occ h i = Inr h' \<Longrightarrow> same_header h h'"
  by (auto simp: repair_duplicates_eq same_header_def)

lemma repair_content_types_header:
  "repair_content_types occ h = Inr h' \<Longrightarrow> same_header h h'"
  by (auto simp: repair_content_types_def same_header_def split: if_splits sum.splits option.splits prod.splits)

lemma repair_content_types_other:
  assumes "repair_content_types occ h = Inr h'" and "cn \<noteq> ContentTypeFieldName"
  shows "filter (\<lambda>f. Name f = cn) (Fields h') = filter (\<lambda>f. Name f = cn) (Fields h)"
  using assms
  by (auto simp: repair_content_types_def remove_where_filter
           split: if_splits sum.splits option.splits prod.splits cong: rev_conj_cong)

lemma repair_content_types_skip:
  "occ ContentTypeFieldName \<le> 1 \<Longrightarrow> repair_content_types occ h = Inr h"
  by (simp add: repair_content_types_def)

lemma keep_first_valid_header: "same_header h (keep_first_valid occ h name)"
  by (auto simp: keep_first_valid_def Let_def same_header_def split: option.splits)

lemma keep_first_valid_other:
  "cn \<noteq> name \<Longrightarrow>
   filter (\<lambda>f. Name f = cn) (Fields (keep_first_valid occ h name)) = filter (\<lambda>f. Name f = cn) (Fields h)"
  by (auto simp: keep_first_valid_def Let_def remove_where_filter split: option.splits cong: rev_conj_cong)

lemma keep_first_valid_not_listed:
  "name \<notin> set first_valid_names \<Longrightarrow> keep_first_valid occ h name = h"
  by (simp add: keep_first_valid_def)

lemma repair_first_valid_header: "same_header h (repair_first_valid names occ h)"
proof (induction names arbitrary: h)
  case Nil
  then show ?case by (simp add: repair_first_valid_def same_header_def)
next
  case (Cons n names)
  have "repair_first_valid (n # names) occ h = repair_first_valid names occ (keep_first_valid occ h n)"
    by (simp add: repair_first_valid_def)
  with Cons [of "keep_first_valid occ h n"] keep_first_valid_header [of h occ n] show ?case
    by (simp add: same_header_def)
qed

lemma repair_first_valid_other:
  "cn \<notin> set first_valid_names \<Longrightarrow>
   filter (\<lambda>f. Name f = cn) (Fields (repair_first_valid names occ h)) = filter (\<lambda>f. Name f = cn) (Fields h)"
proof (induction names arbitrary: h)
  case Nil
  then show ?case by (simp add: repair_first_valid_def)
next
  case (Cons n names)
  have e: "repair_first_valid (n # names) occ h = repair_first_valid names occ (keep_first_valid occ h n)"
    by (simp add: repair_first_valid_def)
  show ?case
  proof (cases "n = cn")
    case True
    with Cons.prems have "keep_first_valid occ h n = h" by (simp add: keep_first_valid_not_listed)
    with e Cons show ?thesis by simp
  next
    case False
    then have "filter (\<lambda>f. Name f = cn) (Fields (keep_first_valid occ h n)) = filter (\<lambda>f. Name f = cn) (Fields h)"
      by (intro keep_first_valid_other) simp
    with e Cons.IH [OF Cons.prems, of "keep_first_valid occ h n"] show ?thesis by simp
  qed
qed

lemma repair_mime_version_header:
  "repair_mime_version Parse occ h = Inr h' \<Longrightarrow> same_header h h'"
  by (auto simp: repair_mime_version_def Let_def same_header_def split: option.splits)

lemma repair_mime_version_single:
  "length (filter (\<lambda>f. Name f = MimeVersionFieldName) (Fields h)) \<le> 1 \<Longrightarrow>
   repair_mime_version Parse occ h = Inr h"
  by (simp add: repair_mime_version_def field_def field_in_filter)

lemma repair_transfer_encoding_header:
  "repair_transfer_encoding occ h = Inr h' \<Longrightarrow> same_header h h'"
  by (auto simp: repair_transfer_encoding_def same_header_def split: if_splits sum.splits option.splits)

lemma repair_transfer_encoding_other:
  assumes "repair_transfer_encoding occ h = Inr h'" and "cn \<noteq> ContentTransferEncodingFieldName"
  shows "filter (\<lambda>f. Name f = cn) (Fields h') = filter (\<lambda>f. Name f = cn) (Fields h)"
  using assms
  by (auto simp: repair_transfer_encoding_def RemoveAllNamed_def
           split: if_splits sum.splits option.splits cong: rev_conj_cong)

lemma repair_transfer_encoding_skip:
  "occ ContentTransferEncodingFieldName \<le> 0 \<Longrightarrow> repair_transfer_encoding occ h = Inr h"
  by (simp add: repair_transfer_encoding_def)

lemma sender_differs_False: "sender_differs from sender i False = False"
  by (subst sender_differs.simps) simp

lemma repair_sender_eq:
  "repair_sender occ h =
     (if occ SenderFieldName > 0 \<and> length (addresses h SenderFieldName) \<noteq> 1
      then h\<lparr>Fields := RemoveAllNamed (Fields h) SenderFieldName\<rparr> else h)"
  by (simp add: repair_sender_def Let_def sender_differs_False)

lemma repair_sender_header: "same_header h (repair_sender occ h)"
  by (simp add: repair_sender_eq same_header_def)

lemma repair_sender_other:
  "cn \<noteq> SenderFieldName \<Longrightarrow>
   filter (\<lambda>f. Name f = cn) (Fields (repair_sender occ h)) = filter (\<lambda>f. Name f = cn) (Fields h)"
  by (simp add: repair_sender_eq RemoveAllNamed_def cong: rev_conj_cong)

lemma verified_Verify: "verified (Verify h)"
  by (simp add: Verify_def Let_def split: option.splits)

lemma Verify_verified: "verified h \<Longrightarrow> Verify h = h"
  by (simp add: Verify_def)

lemma Verify_Fields: "Fields (Verify h) = Fields h"
  by (simp add: Verify_def Let_def split: option.splits)

lemma Verify_mode: "mode (Verify h) = mode h"
  by (simp add: Verify_def Let_def split: option.splits)

text \<open>The result of Repair on an invalid header, step by step.\<close>

lemma Repair_steps:
  assumes "Repair fieldNames Parse h = Inr h'" and "err (Verify h) \<noteq> None"
  obtains h1 h2 h4 h5 where
    "repair_duplicates (occurrences (Fields h)) (Verify h) 0 = Inr h1"
    "repair_content_types (occurrences (Fields h)) h1 = Inr h2"
    "repair_mime_version Parse (occurrences (Fields h)) (repair_first_valid fieldNames (occurrences (Fields h)) h2) = Inr h4"
    "repair_transfer_encoding (occurrences (Fields h)) h4 = Inr h5"
    "h' = repair_sender (occurrences (Fields h)) h5"
  using assms
  by (auto simp: Repair_def Valid_def Let_def Verify_Fields split: sum.splits)

lemma Repair_valid: "err (Verify h) = None \<Longrightarrow> Repair fieldNames Parse h = Inr (Verify h)"
  by (simp add: Repair_def Valid_def Let_def)

lemma Repair_header:
  assumes "Repair fieldNames Parse h = Inr h'"
  shows "same_header (Verify h) h'"
proof (cases "err (Verify h) = None")
  case True
  with assms show ?thesis by (simp add: Repair_valid same_header_def)
next
  case False
  from assms False obtain h1 h2 h4 h5 where
    s: "repair_duplicates (occurrences (Fields h)) (Verify h) 0 = Inr h1"
    "repair_content_types (occurrences (Fields h)) h1 = Inr h2"
    "repair_mime_version Parse (occurrences (Fields h)) (repair_first_valid fieldNames (occurrences (Fields h)) h2) = Inr h4"
    "repair_transfer_encoding (occurrences (Fields h)) h4 = Inr h5"
    "h' = repair_sender (occurrences (Fields h)) h5"
    by (rule Repair_steps)
  let ?h3 = "repair_first_valid fieldNames (occurrences (Fields h)) h2"
  from repair_duplicates_header [OF s(1)] repair_content_types_header [OF s(2)]
    repair_first_valid_header [of h2 fieldNames "occurrences (Fields h)"]
    repair_mime_version_header [OF s(3)] repair_transfer_encoding_header [OF s(4)]
    repair_sender_header [of h5 "occurrences (Fields h)"] s(5)
  show ?thesis by (simp add: same_header_def)
qed

lemma occurrences_distinct: "distinct (map Name fs) \<Longrightarrow> occurrences fs n \<le> 1"
proof -
  assume "distinct (map Name fs)"
  then have "length (filter (\<lambda>f. Name f = n) fs) \<le> 1"
  proof (induction fs)
    case Nil
    then show ?case by simp
  next
    case (Cons f fs)
    from Cons.prems have "Name f \<notin> Name ` set fs" by simp
    then have "\<forall>x\<in>set fs. Name x \<noteq> Name f" by (auto simp: image_iff)
    then have "filter (\<lambda>g. Name g = Name f) fs = []"
      by (simp add: filter_empty_conv)
    with Cons show ?case by auto
  qed
  then show ?thesis by (simp add: occurrences_eq)
qed

lemma keep_first_valid_single: "occ name \<le> 1 \<Longrightarrow> keep_first_valid occ h name = h"
  by (simp add: keep_first_valid_def)

lemma repair_first_valid_single: "(\<And>n. occ n \<le> 1) \<Longrightarrow> repair_first_valid names occ h = h"
  by (induction names) (simp_all add: repair_first_valid_def keep_first_valid_single)

lemma repair_duplicates_single:
  assumes "\<And>n. occ n \<le> 1"
  shows "repair_duplicates occ h 0 = Inr h"
proof -
  have "filter (\<lambda>c. c_m c = mode h \<and> occ (c_name c) > c_max c) conditions = []"
    using assms by (auto simp: filter_empty_conv conditions_max not_less)
  then show ?thesis by (simp add: repair_duplicates_eq)
qed

lemma Repair_distinct_names:
  assumes "err (Verify h) \<noteq> None" and "distinct (map Name (Fields h))"
  shows "Repair fieldNames Parse h =
     (case repair_transfer_encoding (occurrences (Fields h)) (Verify h) of
        Inl p \<Rightarrow> Inl p
      | Inr h5 \<Rightarrow> Inr (repair_sender (occurrences (Fields h)) h5))"
proof -
  let ?occ = "occurrences (Fields h)"
  have o: "?occ n \<le> 1" for n using assms(2) by (rule occurrences_distinct)
  have 1: "repair_duplicates ?occ (Verify h) 0 = Inr (Verify h)"
    using o by (rule repair_duplicates_single)
  have 2: "repair_content_types ?occ (Verify h) = Inr (Verify h)"
    using o by (rule repair_content_types_skip)
  have 3: "repair_first_valid fieldNames ?occ (Verify h) = Verify h"
    using o by (rule repair_first_valid_single)
  have "length (filter (\<lambda>f. Name f = MimeVersionFieldName) (Fields (Verify h))) \<le> 1"
    using o [of MimeVersionFieldName] by (simp add: occurrences_eq Verify_Fields)
  then have 4: "repair_mime_version Parse ?occ (Verify h) = Inr (Verify h)"
    by (rule repair_mime_version_single)
  have e: "(err (Verify h) = None) = False" using assms(1) by simp
  show ?thesis
    by (simp add: Repair_def Valid_def Let_def Verify_Fields e 1 2 3 4 split: sum.splits)
qed

lemma Repair_intro:
  assumes "err (Verify h) \<noteq> None"
    and "repair_duplicates (occurrences (Fields h)) (Verify h) 0 = Inr h1"
    and "repair_content_types (occurrences (Fields h)) h1 = Inr h2"
    and "repair_mime_version Parse (occurrences (Fields h))
           (repair_first_valid fieldNames (occurrences (Fields h)) h2) = Inr h4"
    and "repair_transfer_encoding (occurrences (Fields h)) h4 = Inr h5"
  shows "Repair fieldNames Parse h = Inr (repair_sender (occurrences (Fields h)) h5)"
proof -
  have e: "(err (Verify h) = None) = False" using assms(1) by simp
  show ?thesis
    by (simp add: Repair_def Valid_def Let_def Verify_Fields e assms(2-5))
qed

lemma repair_first_valid_skip:
  "(\<And>n. n \<in> set first_valid_names \<Longrightarrow> occ n \<le> 1) \<Longrightarrow> repair_first_valid names occ h = h"
proof (induction names)
  case Nil
  then show ?case by (simp add: repair_first_valid_def)
next
  case (Cons n names)
  have "keep_first_valid occ h n = h"
  proof (cases "n \<in> set first_valid_names")
    case True
    then have "occ n \<le> 1" by (rule Cons.prems)
    then show ?thesis by (rule keep_first_valid_single)
  next
    case False
    then show ?thesis by (rule keep_first_valid_not_listed)
  qed
  with Cons show ?case by (simp add: repair_first_valid_def)
qed

lemma Repair_only_duplicates:
  assumes "err (Verify h) \<noteq> None"
    and "\<And>n. n \<in> set first_valid_names \<Longrightarrow> occurrences (Fields h) n \<le> 1"
    and "occurrences (Fields h) ContentTransferEncodingFieldName \<le> 0"
    and "occurrences (Fields h) SenderFieldName \<le> 0"
    and "repair_duplicates (occurrences (Fields h)) (Verify h) 0 = Inr h1"
    and "length (filter (\<lambda>f. Name f = MimeVersionFieldName) (Fields h1)) \<le> 1"
  shows "Repair fieldNames Parse h = Inr h1"
proof -
  let ?occ = "occurrences (Fields h)"
  have "?occ ContentTypeFieldName \<le> 1" by (rule assms(2)) (simp add: first_valid_names_def)
  then have 2: "repair_content_types ?occ h1 = Inr h1" by (rule repair_content_types_skip)
  have 3: "repair_first_valid fieldNames ?occ h1 = h1"
    using assms(2) by (rule repair_first_valid_skip)
  have 4: "repair_mime_version Parse ?occ (repair_first_valid fieldNames ?occ h1) = Inr h1"
    using assms(6) by (simp add: 3 repair_mime_version_single)
  have 5: "repair_transfer_encoding ?occ h1 = Inr h1"
    using assms(3) by (rule repair_transfer_encoding_skip)
  have 6: "repair_sender ?occ h1 = h1" using assms(4) by (simp add: repair_sender_eq)
  from Repair_intro [OF assms(1) assms(5) 2 4 5] 6 show ?thesis by simp
qed

lemma subseq_collapse_copies: "subseq (collapse_copies cn fs) fs"
  by (induction fs) auto

lemma subseq_foldl_collapse_copies:
  "subseq (foldl (\<lambda>fs c. collapse_copies (c_name c) fs) fs cs) fs"
proof (induction cs arbitrary: fs)
  case Nil
  then show ?case by simp
next
  case (Cons c cs)
  from Cons [of "collapse_copies (c_name c) fs"] subseq_collapse_copies [of "c_name c" fs]
  show ?case by (auto intro: subseq_order.trans)
qed

lemma verify_conditions_Some: "verify_conditions md occ (Some x) i = Some x"
  by (subst verify_conditions.simps) simp

lemma verify_conditions_error: "e \<noteq> None \<Longrightarrow> verify_conditions md occ e i = e"
  by (cases e) (simp_all add: verify_conditions_Some)

lemma verify_conditions_too_many:
  "i \<le> k \<Longrightarrow> k < length conditions \<Longrightarrow> c_max (conditions ! k) < occ (c_name (conditions ! k)) \<Longrightarrow>
   verify_conditions md occ e i \<noteq> None"
proof (induction md occ e i rule: verify_conditions.induct)
  case (1 md occ e i)
  show ?case
  proof (cases "e = None")
    case False
    then show ?thesis by (simp add: verify_conditions_error)
  next
    case True
    show ?thesis
    proof (cases "i = k")
      case k: True
      with True "1.prems" show ?thesis
        by (subst verify_conditions.simps) (simp add: Let_def verify_conditions_error)
    next
      case False
      with "1.prems" have "i + 1 \<le> k" by simp
      from "1.IH" [OF _ refl refl this "1.prems"(2,3)] True "1.prems" show ?thesis
        by (subst verify_conditions.simps) (simp add: Let_def)
    qed
  qed
qed

lemma Verify_three_mime_versions:
  assumes "\<not> verified h" and "length (filter (\<lambda>f. Name f = MimeVersionFieldName) (Fields h)) = 3"
  shows "err (Verify h) \<noteq> None"
proof -
  have k: "(10::nat) < length conditions" "c_name (conditions ! 10) = MimeVersionFieldName"
    "c_max (conditions ! 10) = 1"
    by (simp_all add: conditions_def cond_def)
  have "verify_conditions (mode h) (occurrences (Fields h)) None 0 \<noteq> None"
    by (rule verify_conditions_too_many [of 0 10]) (simp_all add: k occurrences_eq assms(2))
  with assms(1) show ?thesis
    by (auto simp: Verify_def Let_def split: option.splits)
qed

lemma mime_version_condition: "\<exists>c\<in>set conditions. c_name c = MimeVersionFieldName \<and> c_m c = md"
  by (cases md) (simp_all add: conditions_def cond_def)

lemma Repair_three_mime_versions_steps:
  assumes "\<not> verified h"
    and "filter (\<lambda>f. Name f = MimeVersionFieldName) (Fields h) = [a, b, c]"
    and "rfc822 b = rfc822 a" and "rfc822 c = rfc822 a"
  obtains h1 where "repair_duplicates (occurrences (Fields h)) (Verify h) 0 = Inr h1"
    and "filter (\<lambda>f. Name f = MimeVersionFieldName) (Fields h1) = [a]"
proof -
  let ?occ = "occurrences (Fields h)"
  obtain h1 where h1: "repair_duplicates (occurrences (Fields (Verify h))) (Verify h) 0 = Inr h1"
    by (simp add: repair_duplicates_eq)
  from repair_duplicates_filter [OF h1, of MimeVersionFieldName] assms(2-4)
  have "filter (\<lambda>f. Name f = MimeVersionFieldName) (Fields h1) = [a]"
    by (simp add: Verify_Fields Verify_mode mime_version_condition)
  with h1 that show thesis by (simp add: Verify_Fields)
qed

lemma find_name_valid:
  "find (\<lambda>f. Name f = name \<and> Field_Valid f) fs = find Field_Valid (filter (\<lambda>f. Name f = name) fs)"
  by (induction fs) auto

lemma find_filter_keep:
  "find P xs = Some x \<Longrightarrow> Q x \<Longrightarrow> find P (filter Q xs) = Some x"
  by (induction xs) (auto split: if_splits)

lemma prefer_first_valid_idem:
  "prefer_first_valid b (prefer_first_valid b xs) = prefer_first_valid b xs"
proof (cases "find Field_Valid xs")
  case None
  then show ?thesis by (simp add: prefer_first_valid_def)
next
  case (Some fv)
  let ?Q = "\<lambda>f. ptr f = ptr fv \<or> (\<not> b \<and> Field_Valid f)"
  from Some have "find Field_Valid (filter ?Q xs) = Some fv"
    by (rule find_filter_keep) simp
  with Some show ?thesis by (simp add: prefer_first_valid_def)
qed

lemma keep_first_valid_same:
  assumes "1 < occ name" and "name \<in> set first_valid_names"
  shows "filter (\<lambda>f. Name f = name) (Fields (keep_first_valid occ h name))
     = prefer_first_valid (name \<noteq> ContentTypeFieldName) (filter (\<lambda>f. Name f = name) (Fields h))"
proof (cases "find (\<lambda>f. Name f = name \<and> Field_Valid f) (Fields h)")
  case None
  with assms show ?thesis
    by (simp add: keep_first_valid_def prefer_first_valid_def find_name_valid [symmetric])
next
  case (Some fv)
  have "filter (\<lambda>f. Name f = name)
          (filter (\<lambda>f. \<not> (Name f = name \<and> ptr f \<noteq> ptr fv \<and> (name \<noteq> ContentTypeFieldName \<or> \<not> Field_Valid f))) fs)
      = filter (\<lambda>f. ptr f = ptr fv \<or> (\<not> name \<noteq> ContentTypeFieldName \<and> Field_Valid f))
          (filter (\<lambda>f. Name f = name) fs)" for fs
    by (induction fs) auto
  with assms Some show ?thesis
    by (simp add: keep_first_valid_def prefer_first_valid_def find_name_valid [symmetric]
          remove_where_filter Let_def del: filter_filter)
qed

lemma repair_first_valid_same:
  assumes "1 < occ name" and "name \<in> set first_valid_names"
  shows "filter (\<lambda>f. Name f = name) (Fields (repair_first_valid names occ h))
     = (if name \<in> set names
        then prefer_first_valid (name \<noteq> ContentTypeFieldName) (filter (\<lambda>f. Name f = name) (Fields h))
        else filter (\<lambda>f. Name f = name) (Fields h))"
proof (induction names arbitrary: h)
  case Nil
  then show ?case by (simp add: repair_first_valid_def)
next
  case (Cons n names)
  have e: "repair_first_valid (n # names) occ h = repair_first_valid names occ (keep_first_valid occ h n)"
    by (simp add: repair_first_valid_def)
  show ?case
  proof (cases "n = name")
    case True
    with Cons [of "keep_first_valid occ h n"] e assms show ?thesis
      by (simp add: keep_first_valid_same prefer_first_valid_idem)
  next
    case False
    then have "filter (\<lambda>f. Name f = name) (Fields (keep_first_valid occ h n))
        = filter (\<lambda>f. Name f = name) (Fields h)"
      by (intro keep_first_valid_other) simp
    with Cons [of "keep_first_valid occ h n"] e False show ?thesis by auto
  qed
qed

lemma filter_ptr_distinct:
  "distinct (map ptr fs) \<Longrightarrow> fv \<in> set fs \<Longrightarrow> filter (\<lambda>f. ptr f = ptr fv) fs = [fv]"
proof (induction fs)
  case Nil
  then show ?case by simp
next
  case (Cons f fs)
  show ?case
  proof (cases "f = fv")
    case True
    from Cons.prems(1) have "ptr f \<notin> ptr ` set fs" by simp
    then have "\<forall>x\<in>set fs. ptr x \<noteq> ptr f" by (auto simp: image_iff)
    then have "filter (\<lambda>g. ptr g = ptr f) fs = []" by (simp add: filter_empty_conv)
    with True show ?thesis by simp
  next
    case False
    with Cons.prems have m: "fv \<in> set fs" by simp
    from Cons.prems(1) have "ptr f \<notin> ptr ` set fs" by simp
    with m have "ptr f \<noteq> ptr fv" by (auto simp: image_iff)
    with Cons m show ?thesis by simp
  qed
qed

subsection \<open>The example headers\<close>

lemma Verify_two_subjects:
  "Verify two_subjects =
     two_subjects\<lparr>verified := True, err := Some ''2 Subject fields seen. At most 1 may be present.''\<rparr>"
  by code_simp

lemma Repair_two_subjects: "Repair fieldNames Parse two_subjects = Inr one_subject"
proof (rule Repair_only_duplicates)
  show "err (Verify two_subjects) \<noteq> None" by (simp add: Verify_two_subjects)
  show "occurrences (Fields two_subjects) n \<le> 1" if "n \<in> set first_valid_names" for n
    using that unfolding first_valid_names_def by (auto; code_simp)
  show "occurrences (Fields two_subjects) ContentTransferEncodingFieldName \<le> 0" by code_simp
  show "occurrences (Fields two_subjects) SenderFieldName \<le> 0" by code_simp
  show "repair_duplicates (occurrences (Fields two_subjects)) (Verify two_subjects) 0 = Inr one_subject"
    by code_simp
  show "length (filter (\<lambda>f. Name f = MimeVersionFieldName) (Fields one_subject)) \<le> 1" by code_simp
qed

section \<open>Claims about ReadHeader\<close>

text \<open>
  C1. The claim: ReadHeader returns a Header for every input and mode, in particular for an
  input that ends right after a field name's colon, for one that ends in an unterminated
  mbox From token and for one whose mbox separator line has no line feed. The code reads
  the string past its end on such inputs: \<^verbatim>\<open>a:\<close> and \<^verbatim>\<open>abc\<close> panic with an index out of
  range in either mode, and in Rfc5322Header mode \<^verbatim>\<open>From\<close> panics in the slice of line 45
  and \<^verbatim>\<open>From x\<close> in the loop of line 49.
\<close>

theorem ReadHeader_panics:
  "ReadHeader mk ''a:'' m = Inl IndexOutOfRange
   \<and> ReadHeader mk ''abc'' m = Inl IndexOutOfRange
   \<and> ReadHeader mk ''From'' Rfc5322Header = Inl SliceOutOfRange
   \<and> ReadHeader mk ''From x'' Rfc5322Header = Inl IndexOutOfRange"
  by (simp add: rh_eval)

text \<open>
  C9. A parsed pair of name and value is appended to the Header if and only if the
  simplified value is not empty or the lower-cased name starts with \<^verbatim>\<open>x-\<close>: a run of the
  loop body that reads a field appends exactly that field when the test holds and leaves
  the Header as it is otherwise; every field of a returned Header passed the test; the
  field \<^verbatim>\<open>X-Anything\<close> with an empty value is kept and the field \<^verbatim>\<open>Subject\<close> with an empty
  value is dropped.
\<close>

theorem ReadHeader_appends_iff:
  "(\<forall>i0 h name v j2.
      is_mbox s m (skip_bom s i0) (scan_name s (skip_bom s i0)) = Inr False \<longrightarrow>
      is_field s (skip_bom s i0) (scan_name s (skip_bom s i0)) = Inr True \<longrightarrow>
      read_field s (skip_bom s i0) (scan_name s (skip_bom s i0)) = Inr (name, v, j2) \<longrightarrow>
      (\<exists>d i'. ReadHeader_body mk s m i0 h =
         Inr (d, i', if simplify v \<noteq> [] \<or> HasPrefix (ToLower name) ''x-''
                     then h\<lparr>Fields := Fields h @ [mk name v]\<rparr> else h)))
   \<and> (\<forall>h e. ReadHeader mk s m = Inr (h, e) \<longrightarrow>
        (\<exists>nvs. Fields h = map (\<lambda>(n, v). mk n v) nvs
           \<and> list_all (\<lambda>(n, v). simplify v \<noteq> [] \<or> HasPrefix (ToLower n) ''x-'') nvs))
   \<and> ReadHeader mk (''X-Anything:'' @ [CHR 0x0A]) m
       = Inr (\<lparr>mode = m, Fields = [mk ''X-Anything'' []], err = None, verified = False\<rparr>, None)
   \<and> ReadHeader mk (''Subject:'' @ [CHR 0x0A]) m
       = Inr (\<lparr>mode = m, Fields = [], err = None, verified = False\<rparr>, None)"
proof (intro conjI allI impI)
  fix i0 h name v j2
  assume "is_mbox s m (skip_bom s i0) (scan_name s (skip_bom s i0)) = Inr False"
    and "is_field s (skip_bom s i0) (scan_name s (skip_bom s i0)) = Inr True"
    and "read_field s (skip_bom s i0) (scan_name s (skip_bom s i0)) = Inr (name, v, j2)"
  from ReadHeader_body_field_branch [OF this]
  show "\<exists>d i'. ReadHeader_body mk s m i0 h =
         Inr (d, i', if simplify v \<noteq> [] \<or> HasPrefix (ToLower name) ''x-''
                     then h\<lparr>Fields := Fields h @ [mk name v]\<rparr> else h)"
    by (auto simp: Add_def)
next
  fix h e
  assume "ReadHeader mk s m = Inr (h, e)"
  then have "ReadHeader_loop mk s m False 0 \<lparr>mode = m, Fields = [], err = None, verified = False\<rparr> = Inr h"
    by (auto simp: ReadHeader_def split: sum.splits)
  from ReadHeader_loop_fields [OF this]
  show "\<exists>nvs. Fields h = map (\<lambda>(n, v). mk n v) nvs
           \<and> list_all (\<lambda>(n, v). simplify v \<noteq> [] \<or> HasPrefix (ToLower n) ''x-'') nvs"
    by (auto simp: keep_field_def)
next
  show "ReadHeader mk (''X-Anything:'' @ [CHR 0x0A]) m
       = Inr (\<lparr>mode = m, Fields = [mk ''X-Anything'' []], err = None, verified = False\<rparr>, None)"
    by (simp add: rh_eval)
next
  show "ReadHeader mk (''Subject:'' @ [CHR 0x0A]) m
       = Inr (\<lparr>mode = m, Fields = [], err = None, verified = False\<rparr>, None)"
    by (simp add: rh_eval)
qed

theorem ReadHeader_appends_iff_witness:
  "(\<exists>d i'. ReadHeader_body Pair (''X-Anything:'' @ [CHR 0x0A] @ ''Subject:'' @ [CHR 0x0A]) MimeHeader 0
              \<lparr>mode = MimeHeader, Fields = [], err = None, verified = False\<rparr>
            = Inr (d, i', \<lparr>mode = MimeHeader, Fields = [(''X-Anything'', [])], err = None, verified = False\<rparr>))
   \<and> (\<exists>d i'. ReadHeader_body Pair (''X-Anything:'' @ [CHR 0x0A] @ ''Subject:'' @ [CHR 0x0A]) MimeHeader 12
              \<lparr>mode = MimeHeader, Fields = [(''X-Anything'', [])], err = None, verified = False\<rparr>
            = Inr (d, i', \<lparr>mode = MimeHeader, Fields = [(''X-Anything'', [])], err = None, verified = False\<rparr>))"
proof -
  let ?s = "''X-Anything:'' @ [CHR 0x0A] @ ''Subject:'' @ [CHR 0x0A]"
  let ?h0 = "\<lparr>mode = MimeHeader, Fields = [], err = None, verified = False\<rparr> :: (string \<times> string) Header"
  let ?h1 = "\<lparr>mode = MimeHeader, Fields = [(''X-Anything'', [])], err = None, verified = False\<rparr> :: (string \<times> string) Header"
  note t = ReadHeader_appends_iff [of ?s MimeHeader Pair, THEN conjunct1, rule_format]
  have a: "is_mbox ?s MimeHeader (skip_bom ?s 0) (scan_name ?s (skip_bom ?s 0)) = Inr False"
    "is_field ?s (skip_bom ?s 0) (scan_name ?s (skip_bom ?s 0)) = Inr True"
    "read_field ?s (skip_bom ?s 0) (scan_name ?s (skip_bom ?s 0)) = Inr (''X-Anything'', [], 11)"
    by (simp_all add: rh_eval)
  have b: "is_mbox ?s MimeHeader (skip_bom ?s 12) (scan_name ?s (skip_bom ?s 12)) = Inr False"
    "is_field ?s (skip_bom ?s 12) (scan_name ?s (skip_bom ?s 12)) = Inr True"
    "read_field ?s (skip_bom ?s 12) (scan_name ?s (skip_bom ?s 12)) = Inr (''Subject'', [], 20)"
    by (simp_all add: rh_eval)
  from t [OF a, of ?h0] have 1: "\<exists>d i'. ReadHeader_body Pair ?s MimeHeader 0 ?h0 = Inr (d, i', ?h1)"
    by (simp add: simplify_def HasPrefix_def ToLower_def lower_byte_def char_of_eq_iff)
  from t [OF b, of ?h1] have 2: "\<exists>d i'. ReadHeader_body Pair ?s MimeHeader 12 ?h1 = Inr (d, i', ?h1)"
    by (simp add: simplify_def HasPrefix_def ToLower_def lower_byte_def char_of_eq_iff)
  from 1 2 show ?thesis by blast
qed

text \<open>
  C10. Whenever ReadHeader returns, its error result is \<^verbatim>\<open>nil\<close>.
\<close>

theorem ReadHeader_error_nil: "ReadHeader mk s m = Inr (h, e) \<Longrightarrow> e = None"
  by (auto simp: ReadHeader_def split: sum.splits)

theorem ReadHeader_error_nil_witness:
  "ReadHeader Pair (''Subject: hi'' @ [CHR 0x0A]) Rfc5322Header
     = Inr (\<lparr>mode = Rfc5322Header, Fields = [(''Subject'', ''hi'')], err = None, verified = False\<rparr>,
            snd (projr (ReadHeader Pair (''Subject: hi'' @ [CHR 0x0A]) Rfc5322Header)))
   \<and> snd (projr (ReadHeader Pair (''Subject: hi'' @ [CHR 0x0A]) Rfc5322Header)) = None"
proof -
  have a: "ReadHeader Pair (''Subject: hi'' @ [CHR 0x0A]) Rfc5322Header
     = Inr (\<lparr>mode = Rfc5322Header, Fields = [(''Subject'', ''hi'')], err = None, verified = False\<rparr>,
            snd (projr (ReadHeader Pair (''Subject: hi'' @ [CHR 0x0A]) Rfc5322Header)))"
    by (simp add: rh_eval)
  from ReadHeader_error_nil [OF a] a show ?thesis by simp
qed

section \<open>Claims about Verify and Repair\<close>

text \<open>
  C2. The claim: when Repair changes an invalid Header so that afterwards every field is
  valid and every cardinality rule holds, a following call of Valid returns true. On the
  header with two identical Subject fields Repair removes the second one; afterwards all
  fields are valid, every cardinality rule holds and a fresh run of Verify finds no error,
  but Valid still returns false.
\<close>

theorem Repair_leaves_stale_verdict:
  "\<not> fst (Valid two_subjects)
   \<and> Repair first_valid_names (\<lambda>f s. f\<lparr>rfc822 := s\<rparr>) two_subjects = Inr one_subject
   \<and> list_all Field_Valid (Fields one_subject)
   \<and> cardinality_rules_satisfied one_subject
   \<and> err (Verify (one_subject\<lparr>verified := False\<rparr>)) = None
   \<and> \<not> fst (Valid one_subject)"
  by code_simp

text \<open>
  C2, amended. For every Header that is invalid, if Repair returns, a following call of
  Valid returns false with the error recorded before the repair and changes nothing:
  Repair calls Valid first, which sets \<^verbatim>\<open>verified\<close>, no step of Repair resets it, and Verify
  returns at once when it is set.
\<close>

theorem Repair_verdict_cached:
  assumes "\<not> fst (Valid h)" and "Repair fieldNames Parse h = Inr h'"
  shows "\<not> fst (Valid h') \<and> err (snd (Valid h')) = err (snd (Valid h)) \<and> Fields (snd (Valid h')) = Fields h'"
proof -
  from assms(2) have s: "same_header (Verify h) h'" by (rule Repair_header)
  then have "verified h'" by (simp add: same_header_def verified_Verify)
  then have v: "Verify h' = h'" by (rule Verify_verified)
  from s have "err h' = err (Verify h)" by (simp add: same_header_def)
  with assms(1) v show ?thesis by (simp add: Valid_def Let_def)
qed

theorem Repair_verdict_cached_witness:
  "\<not> fst (Valid two_subjects)
   \<and> Repair first_valid_names (\<lambda>f s. f\<lparr>rfc822 := s\<rparr>) two_subjects = Inr one_subject
   \<and> \<not> fst (Valid one_subject)
   \<and> err (snd (Valid one_subject)) = err (snd (Valid two_subjects))
   \<and> Fields (snd (Valid one_subject)) = Fields one_subject"
proof -
  have a: "\<not> fst (Valid two_subjects)" by code_simp
  have b: "Repair first_valid_names (\<lambda>f s. f\<lparr>rfc822 := s\<rparr>) two_subjects = Inr one_subject"
    by (rule Repair_two_subjects)
  from Repair_verdict_cached [OF a b] a b show ?thesis by blast
qed

text \<open>
  C3. The claim: with all fields valid, Verify records a cardinality error only for a table
  entry of the header's mode, so that a MimeHeader header with two Subject fields is valid.
  In the code the test for too many fields is outside the mode test: the header with two
  Subject fields in MimeHeader mode is reported invalid, with the error of the Subject
  entry, which belongs to Rfc5322Header. (The header with one Subject field is valid in
  MimeHeader mode: the test for too few From and Date fields is inside the mode test.)
\<close>

theorem Verify_too_many_not_gated:
  "Valid (new_header MimeHeader
            [plain_field 0 SubjectFieldName ''hello'', plain_field 1 SubjectFieldName ''hello''])
     = (False,
        \<lparr>mode = MimeHeader,
           Fields = [plain_field 0 SubjectFieldName ''hello'', plain_field 1 SubjectFieldName ''hello''],
           err = Some ''2 Subject fields seen. At most 1 may be present.'',
           verified = True\<rparr>)
   \<and> fst (Valid (new_header MimeHeader [plain_field 0 SubjectFieldName ''hello'']))"
  by code_simp

text \<open>
  C4. The claim: when Sender does not have exactly one address, the Sender fields are
  removed if and only if every Sender key is among the From keys, and kept otherwise. In
  the code the comparison loop starts with \<^verbatim>\<open>difference\<close> false and runs only while it is
  true, so it never finds a difference: on the header with From a@x and Sender b@y, c@z
  (invalid, since it has no Date field) Repair removes the Sender field although neither
  Sender key is a From key.
\<close>

theorem Repair_sender_removed:
  "Repair fieldNames Parse
     (new_header Rfc5322Header
        [address_field 0 FromFieldName ''a@x'' [\<lparr>localpart = ''a'', domain = ''x''\<rparr>],
         address_field 1 SenderFieldName ''b@y, c@z''
           [\<lparr>localpart = ''b'', domain = ''y''\<rparr>, \<lparr>localpart = ''c'', domain = ''z''\<rparr>]])
     = Inr \<lparr>mode = Rfc5322Header,
            Fields = [address_field 0 FromFieldName ''a@x'' [\<lparr>localpart = ''a'', domain = ''x''\<rparr>]],
            err = Some ''0 Date fields seen. At least 1 must be present.'',
            verified = True\<rparr>
   \<and> sender_differs from sender i False = False"
proof -
  let ?h = "new_header Rfc5322Header
        [address_field 0 FromFieldName ''a@x'' [\<lparr>localpart = ''a'', domain = ''x''\<rparr>],
         address_field 1 SenderFieldName ''b@y, c@z''
           [\<lparr>localpart = ''b'', domain = ''y''\<rparr>, \<lparr>localpart = ''c'', domain = ''z''\<rparr>]]"
  have v: "Verify ?h = ?h\<lparr>verified := True, err := Some ''0 Date fields seen. At least 1 must be present.''\<rparr>"
    by code_simp
  have d: "distinct (map Name (Fields ?h))" by code_simp
  have t: "repair_transfer_encoding (occurrences (Fields ?h)) (Verify ?h) = Inr (Verify ?h)"
    by code_simp
  have s: "repair_sender (occurrences (Fields ?h)) (Verify ?h)
     = \<lparr>mode = Rfc5322Header,
            Fields = [address_field 0 FromFieldName ''a@x'' [\<lparr>localpart = ''a'', domain = ''x''\<rparr>]],
            err = Some ''0 Date fields seen. At least 1 must be present.'',
            verified = True\<rparr>"
    by code_simp
  from v have "err (Verify ?h) \<noteq> None" by simp
  from Repair_distinct_names [OF this d] t s show ?thesis
    by (simp add: sender_differs_False)
qed

text \<open>
  C5. The claim: for a header with a Content-Transfer-Encoding field and no Content-Type
  field, Repair completes and leaves the Content-Transfer-Encoding field in place. In the
  code the test of line 425 reads \<^verbatim>\<open>ct.Type\<close> of the \<^verbatim>\<open>nil\<close> Content-Type: on the header
  with a From field and a Content-Transfer-Encoding field (invalid, since it has no Date
  field) Repair panics.
\<close>

theorem Repair_transfer_encoding_nil:
  "Repair fieldNames Parse
     (new_header Rfc5322Header
        [address_field 0 FromFieldName ''a@example.org'' [\<lparr>localpart = ''a'', domain = ''example.org''\<rparr>],
         (plain_field 1 ContentTransferEncodingFieldName ''7bit'')\<lparr>body := ContentTransferEncodingField\<rparr>])
     = Inl NilDereference"
proof -
  let ?h = "new_header Rfc5322Header
        [address_field 0 FromFieldName ''a@example.org'' [\<lparr>localpart = ''a'', domain = ''example.org''\<rparr>],
         (plain_field 1 ContentTransferEncodingFieldName ''7bit'')\<lparr>body := ContentTransferEncodingField\<rparr>]"
  have v: "Verify ?h = ?h\<lparr>verified := True, err := Some ''0 Date fields seen. At least 1 must be present.''\<rparr>"
    by code_simp
  have d: "distinct (map Name (Fields ?h))" by code_simp
  have t: "repair_transfer_encoding (occurrences (Fields ?h)) (Verify ?h) = Inl NilDereference"
    by code_simp
  from v have "err (Verify ?h) \<noteq> None" by simp
  from Repair_distinct_names [OF this d] t show ?thesis by simp
qed

text \<open>
  C6. The claim: for a Header with three identical Mime-Version fields, after Repair exactly
  one Mime-Version field remains and its value contains the note text with the original
  count 3. On the header with three fields \<^verbatim>\<open>Mime-Version: 1.0\<close>, one From and one Date
  field, one Mime-Version field remains after Repair, but its value is still \<^verbatim>\<open>1.0\<close>, which
  does not contain the note, even when \<^verbatim>\<open>Parse\<close> is a function that stores the text it is
  given.
\<close>

theorem Repair_mime_version_no_note:
  "Repair first_valid_names (\<lambda>f s. f\<lparr>rfc822 := s\<rparr>) three_mime_versions = Inr one_mime_version
   \<and> filter (\<lambda>f. Name f = MimeVersionFieldName) (Fields one_mime_version)
       = [plain_field 0 MimeVersionFieldName ''1.0'']
   \<and> rfc822 (plain_field 0 MimeVersionFieldName ''1.0'') = ''1.0''
   \<and> \<not> sublist ''Note: original message contained 3 Mime-Version fields''
                 (rfc822 (plain_field 0 MimeVersionFieldName ''1.0''))"
  by code_simp

text \<open>
  C6, amended. For a Header that has not been verified yet and has exactly three
  Mime-Version fields with the same rendering, whenever Repair returns, exactly one
  Mime-Version field remains: the first of the three, unchanged. The first step has removed
  the two copies, so the Mime-Version step of lines 414 to 418 finds no second field and
  writes no note. Repair does return when the header has at most one Content-Type field
  and no Content-Transfer-Encoding field.
\<close>

theorem Repair_mime_version_collapse:
  assumes "\<not> verified h"
    and "filter (\<lambda>f. Name f = MimeVersionFieldName) (Fields h) = [a, b, c]"
    and "rfc822 b = rfc822 a" and "rfc822 c = rfc822 a"
  shows "(\<forall>h'. Repair fieldNames Parse h = Inr h' \<longrightarrow>
            filter (\<lambda>f. Name f = MimeVersionFieldName) (Fields h') = [a])
       \<and> (occurrences (Fields h) ContentTypeFieldName \<le> 1
            \<and> occurrences (Fields h) ContentTransferEncodingFieldName = 0 \<longrightarrow>
          (\<exists>h'. Repair fieldNames Parse h = Inr h'))"
proof (intro conjI allI impI)
  let ?occ = "occurrences (Fields h)"
  let ?mv = "\<lambda>h. filter (\<lambda>f. Name f = MimeVersionFieldName) (Fields h)"
  from assms(1,2) have e: "err (Verify h) \<noteq> None"
    by (intro Verify_three_mime_versions) simp_all
  from assms obtain h1 where s1: "repair_duplicates ?occ (Verify h) 0 = Inr h1" and m1: "?mv h1 = [a]"
    by (rule Repair_three_mime_versions_steps)
  {
    fix h'
    assume r: "Repair fieldNames Parse h = Inr h'"
    from r e obtain g1 h2 h4 h5 where
      t: "repair_duplicates ?occ (Verify h) 0 = Inr g1"
      "repair_content_types ?occ g1 = Inr h2"
      "repair_mime_version Parse ?occ (repair_first_valid fieldNames ?occ h2) = Inr h4"
      "repair_transfer_encoding ?occ h4 = Inr h5"
      "h' = repair_sender ?occ h5"
      by (rule Repair_steps)
    from t(1) s1 have "g1 = h1" by simp
    with t(2) have "?mv h2 = ?mv h1"
      by (intro repair_content_types_other) (simp_all add: field_name_defs)
    moreover have "?mv (repair_first_valid fieldNames ?occ h2) = ?mv h2"
      by (intro repair_first_valid_other) (simp add: first_valid_names_def field_name_defs)
    ultimately have m3: "?mv (repair_first_valid fieldNames ?occ h2) = [a]" using m1 by simp
    then have "repair_mime_version Parse ?occ (repair_first_valid fieldNames ?occ h2)
        = Inr (repair_first_valid fieldNames ?occ h2)"
      by (intro repair_mime_version_single) simp
    with t(3) m3 have "?mv h4 = [a]" by auto
    moreover from t(4) have "?mv h5 = ?mv h4"
      by (intro repair_transfer_encoding_other) (simp_all add: field_name_defs)
    moreover from t(5) have "?mv h' = ?mv h5"
      by (simp add: repair_sender_other field_name_defs)
    ultimately show "?mv h' = [a]" by simp
  }
  {
    assume c: "?occ ContentTypeFieldName \<le> 1 \<and> ?occ ContentTransferEncodingFieldName = 0"
    then have s2: "repair_content_types ?occ h1 = Inr h1" by (simp add: repair_content_types_skip)
    have "?mv (repair_first_valid fieldNames ?occ h1) = ?mv h1"
      by (intro repair_first_valid_other) (simp add: first_valid_names_def field_name_defs)
    with m1 have s4: "repair_mime_version Parse ?occ (repair_first_valid fieldNames ?occ h1)
        = Inr (repair_first_valid fieldNames ?occ h1)"
      by (intro repair_mime_version_single) simp
    from c have s5: "repair_transfer_encoding ?occ (repair_first_valid fieldNames ?occ h1)
        = Inr (repair_first_valid fieldNames ?occ h1)"
      by (simp add: repair_transfer_encoding_skip)
    from Repair_intro [OF e s1 s2 s4 s5] show "\<exists>h'. Repair fieldNames Parse h = Inr h'" by blast
  }
qed

theorem Repair_mime_version_collapse_witness:
  "\<not> verified three_mime_versions
   \<and> Repair first_valid_names (\<lambda>f s. f\<lparr>rfc822 := s\<rparr>) three_mime_versions = Inr one_mime_version
   \<and> filter (\<lambda>f. Name f = MimeVersionFieldName) (Fields one_mime_version)
       = [plain_field 0 MimeVersionFieldName ''1.0'']"
proof -
  have a: "\<not> verified three_mime_versions" by code_simp
  have b: "filter (\<lambda>f. Name f = MimeVersionFieldName) (Fields three_mime_versions)
       = [plain_field 0 MimeVersionFieldName ''1.0'', plain_field 1 MimeVersionFieldName ''1.0'',
          plain_field 2 MimeVersionFieldName ''1.0'']"
    by code_simp
  have c: "rfc822 (plain_field 1 MimeVersionFieldName ''1.0'') = rfc822 (plain_field 0 MimeVersionFieldName ''1.0'')"
    "rfc822 (plain_field 2 MimeVersionFieldName ''1.0'') = rfc822 (plain_field 0 MimeVersionFieldName ''1.0'')"
    by (simp_all add: plain_field_def)
  have d: "occurrences (Fields three_mime_versions) ContentTypeFieldName \<le> 1
            \<and> occurrences (Fields three_mime_versions) ContentTransferEncodingFieldName = 0"
    by code_simp
  note t = Repair_mime_version_collapse [OF a b c, of first_valid_names "\<lambda>f s. f\<lparr>rfc822 := s\<rparr>"]
  from t d obtain h' where h': "Repair first_valid_names (\<lambda>f s. f\<lparr>rfc822 := s\<rparr>) three_mime_versions = Inr h'"
    by blast
  with t have m: "filter (\<lambda>f. Name f = MimeVersionFieldName) (Fields h') = [plain_field 0 MimeVersionFieldName ''1.0'']"
    by blast
  have "Repair first_valid_names (\<lambda>f s. f\<lparr>rfc822 := s\<rparr>) three_mime_versions = Inr one_mime_version"
    by code_simp
  with h' m a show ?thesis by simp
qed

text \<open>
  C7. The first step of Repair never panics and keeps the order of the fields. For a name
  that has an entry with maximum 1 for the header's mode in the condition table and that
  occurs more than once, the first occurrence is kept, every later occurrence with the
  rendering of the first is dropped and the occurrences with another rendering stay; the
  fields of every other name stay as they are. The header with two identical Subject
  fields, one From and one Date field in Rfc5322Header mode is reported invalid with the
  error \<^verbatim>\<open>2 Subject fields seen. At most 1 may be present.\<close> and has exactly one Subject
  field after Repair.
\<close>

theorem Repair_exact_duplicates:
  "(\<exists>h'. repair_duplicates (occurrences (Fields h)) h 0 = Inr h' \<and> subseq (Fields h') (Fields h) \<and>
      (\<forall>cn. filter (\<lambda>f. Name f = cn) (Fields h') =
         (if (\<exists>c\<in>set conditions. c_name c = cn \<and> c_m c = mode h \<and> c_max c = 1)
             \<and> 1 < length (filter (\<lambda>f. Name f = cn) (Fields h))
          then (case filter (\<lambda>f. Name f = cn) (Fields h) of
                  [] \<Rightarrow> []
                | f0 # rest \<Rightarrow> f0 # filter (\<lambda>f. rfc822 f \<noteq> rfc822 f0) rest)
          else filter (\<lambda>f. Name f = cn) (Fields h))))
   \<and> Valid two_subjects
       = (False, two_subjects\<lparr>verified := True,
                   err := Some ''2 Subject fields seen. At most 1 may be present.''\<rparr>)
   \<and> (\<exists>h'. Repair fieldNames Parse two_subjects = Inr h'
         \<and> filter (\<lambda>f. Name f = SubjectFieldName) (Fields h') = [plain_field 0 SubjectFieldName ''hello''])"
proof (intro conjI)
  obtain h' where h': "repair_duplicates (occurrences (Fields h)) h 0 = Inr h'"
    by (simp add: repair_duplicates_eq)
  have s: "subseq (Fields h') (Fields h)"
    using h' by (auto simp: repair_duplicates_eq subseq_foldl_collapse_copies)
  have k: "keep_first_and_different xs =
      (case xs of [] \<Rightarrow> [] | f0 # rest \<Rightarrow> f0 # filter (\<lambda>f. rfc822 f \<noteq> rfc822 f0) rest)" for xs
    by (cases xs) simp_all
  have c: "(\<exists>c\<in>set conditions. c_name c = cn \<and> c_m c = mode h \<and> c_max c = 1)
      \<longleftrightarrow> (\<exists>c\<in>set conditions. c_name c = cn \<and> c_m c = mode h)" for cn
    by (auto simp: conditions_max)
  from repair_duplicates_filter [OF h'] s h'
  show "\<exists>h'. repair_duplicates (occurrences (Fields h)) h 0 = Inr h' \<and> subseq (Fields h') (Fields h) \<and>
      (\<forall>cn. filter (\<lambda>f. Name f = cn) (Fields h') =
         (if (\<exists>c\<in>set conditions. c_name c = cn \<and> c_m c = mode h \<and> c_max c = 1)
             \<and> 1 < length (filter (\<lambda>f. Name f = cn) (Fields h))
          then (case filter (\<lambda>f. Name f = cn) (Fields h) of
                  [] \<Rightarrow> []
                | f0 # rest \<Rightarrow> f0 # filter (\<lambda>f. rfc822 f \<noteq> rfc822 f0) rest)
          else filter (\<lambda>f. Name f = cn) (Fields h)))"
    unfolding c k [symmetric] by blast
next
  show "Valid two_subjects
       = (False, two_subjects\<lparr>verified := True,
                   err := Some ''2 Subject fields seen. At most 1 may be present.''\<rparr>)"
    by (simp add: Valid_def Verify_two_subjects)
next
  have "filter (\<lambda>f. Name f = SubjectFieldName) (Fields one_subject) = [plain_field 0 SubjectFieldName ''hello'']"
    by code_simp
  with Repair_two_subjects [of fieldNames Parse]
  show "\<exists>h'. Repair fieldNames Parse two_subjects = Inr h'
         \<and> filter (\<lambda>f. Name f = SubjectFieldName) (Fields h') = [plain_field 0 SubjectFieldName ''hello'']"
    by simp
qed

theorem Repair_exact_duplicates_witness:
  "\<exists>h'. repair_duplicates (occurrences (Fields two_subjects)) two_subjects 0 = Inr h'
      \<and> filter (\<lambda>f. Name f = SubjectFieldName) (Fields h') = [plain_field 0 SubjectFieldName ''hello'']"
proof -
  from Repair_exact_duplicates [of two_subjects first_valid_names "\<lambda>f s. f", THEN conjunct1]
  obtain h' where a: "repair_duplicates (occurrences (Fields two_subjects)) two_subjects 0 = Inr h'"
    and b: "\<forall>cn. filter (\<lambda>f. Name f = cn) (Fields h') =
         (if (\<exists>c\<in>set conditions. c_name c = cn \<and> c_m c = mode two_subjects \<and> c_max c = 1)
             \<and> 1 < length (filter (\<lambda>f. Name f = cn) (Fields two_subjects))
          then (case filter (\<lambda>f. Name f = cn) (Fields two_subjects) of
                  [] \<Rightarrow> []
                | f0 # rest \<Rightarrow> f0 # filter (\<lambda>f. rfc822 f \<noteq> rfc822 f0) rest)
          else filter (\<lambda>f. Name f = cn) (Fields two_subjects))"
    by blast
  have c: "(\<exists>c\<in>set conditions. c_name c = SubjectFieldName \<and> c_m c = mode two_subjects \<and> c_max c = 1)
             \<and> 1 < length (filter (\<lambda>f. Name f = SubjectFieldName) (Fields two_subjects))"
    by code_simp
  have d: "filter (\<lambda>f. Name f = SubjectFieldName) (Fields two_subjects)
     = [plain_field 0 SubjectFieldName ''hello'', plain_field 1 SubjectFieldName ''hello'']"
    by code_simp
  from b [rule_format, of SubjectFieldName] c d
  have "filter (\<lambda>f. Name f = SubjectFieldName) (Fields h') = [plain_field 0 SubjectFieldName ''hello'']"
    by (simp add: plain_field_def)
  with a show ?thesis by blast
qed

text \<open>
  C8. The third step of Repair, for a name among Date, Return-Path, Message-Id,
  Content-Type and References that the table \<^verbatim>\<open>fieldNames\<close> lists and that was counted more
  than once: if no field of the name is valid, the fields of the name stay as they are;
  otherwise, for Content-Type the first valid field and every other valid field stay and the
  invalid ones are removed, and for the other names only the first valid field stays (as
  an object: when all field objects are distinct, exactly that one field remains).
\<close>

theorem Repair_prefer_first_valid:
  assumes "name \<in> set first_valid_names" and "name \<in> set fieldNames" and "1 < occ name"
  shows "filter (\<lambda>f. Name f = name) (Fields (repair_first_valid fieldNames occ h)) =
     (case find (\<lambda>f. Name f = name \<and> Field_Valid f) (Fields h) of
        None \<Rightarrow> filter (\<lambda>f. Name f = name) (Fields h)
      | Some firstValid \<Rightarrow>
          if name = ContentTypeFieldName
          then filter (\<lambda>f. Name f = name \<and> (ptr f = ptr firstValid \<or> Field_Valid f)) (Fields h)
          else filter (\<lambda>f. Name f = name \<and> ptr f = ptr firstValid) (Fields h))
   \<and> (distinct (map ptr (Fields h)) \<and> name \<noteq> ContentTypeFieldName \<longrightarrow>
        (\<forall>firstValid. find (\<lambda>f. Name f = name \<and> Field_Valid f) (Fields h) = Some firstValid \<longrightarrow>
           filter (\<lambda>f. Name f = name) (Fields (repair_first_valid fieldNames occ h)) = [firstValid]))"
proof -
  let ?r = "filter (\<lambda>f. Name f = name) (Fields (repair_first_valid fieldNames occ h))"
  have r: "?r = prefer_first_valid (name \<noteq> ContentTypeFieldName) (filter (\<lambda>f. Name f = name) (Fields h))"
    using assms by (simp add: repair_first_valid_same)
  have c: "filter (\<lambda>f. ptr f = ptr fv \<or> (\<not> b \<and> Field_Valid f)) (filter (\<lambda>f. Name f = name) fs)
      = filter (\<lambda>f. Name f = name \<and> (ptr f = ptr fv \<or> (\<not> b \<and> Field_Valid f))) fs" for fv b fs
    by (induction fs) auto
  have 1: "?r =
     (case find (\<lambda>f. Name f = name \<and> Field_Valid f) (Fields h) of
        None \<Rightarrow> filter (\<lambda>f. Name f = name) (Fields h)
      | Some firstValid \<Rightarrow>
          if name = ContentTypeFieldName
          then filter (\<lambda>f. Name f = name \<and> (ptr f = ptr firstValid \<or> Field_Valid f)) (Fields h)
          else filter (\<lambda>f. Name f = name \<and> ptr f = ptr firstValid) (Fields h))"
    unfolding r prefer_first_valid_def find_name_valid c
    by (simp split: option.splits)
  have 2: "?r = [fv]"
    if d: "distinct (map ptr (Fields h))" and n: "name \<noteq> ContentTypeFieldName"
      and f: "find (\<lambda>f. Name f = name \<and> Field_Valid f) (Fields h) = Some fv" for fv
  proof -
    from f have m: "fv \<in> set (Fields h)" and nm: "Name fv = name"
      by (auto simp: find_Some_iff)
    have "filter (\<lambda>f. Name f = name \<and> ptr f = ptr fv) (Fields h)
        = filter (\<lambda>f. Name f = name) (filter (\<lambda>f. ptr f = ptr fv) (Fields h))"
      by (simp add: conj_commute)
    also have "\<dots> = [fv]" using d m nm by (simp add: filter_ptr_distinct)
    finally show ?thesis using 1 f n by simp
  qed
  from 1 2 show ?thesis by blast
qed

theorem Repair_prefer_first_valid_witness:
  "filter (\<lambda>f. Name f = DateFieldName)
     (Fields (repair_first_valid first_valid_names (occurrences (Fields dates_and_types)) dates_and_types))
     = [plain_field 1 DateFieldName ''Mon, 1 Jan 2024 00:00:00 +0000'']
   \<and> filter (\<lambda>f. Name f = ContentTypeFieldName)
     (Fields (repair_first_valid first_valid_names (occurrences (Fields dates_and_types)) dates_and_types))
     = [content_type_field 4 ''text/plain'' True \<lparr>Type = ''text'', Subtype = ''plain'', Parameters = []\<rparr>,
        content_type_field 5 ''text/html'' True \<lparr>Type = ''text'', Subtype = ''html'', Parameters = []\<rparr>]
   \<and> filter (\<lambda>f. Name f = MessageIdFieldName)
     (Fields (repair_first_valid first_valid_names (occurrences (Fields dates_and_types)) dates_and_types))
     = [invalid_field 7 MessageIdFieldName ''one'', invalid_field 8 MessageIdFieldName ''two'']"
proof -
  let ?occ = "occurrences (Fields dates_and_types)"
  have n: "DateFieldName \<in> set first_valid_names" "ContentTypeFieldName \<in> set first_valid_names"
    "MessageIdFieldName \<in> set first_valid_names"
    by (simp_all add: first_valid_names_def)
  have o: "1 < ?occ DateFieldName" "1 < ?occ ContentTypeFieldName" "1 < ?occ MessageIdFieldName"
    by code_simp+
  note d = Repair_prefer_first_valid [where name = DateFieldName and fieldNames = first_valid_names
      and occ = "?occ" and h = dates_and_types, OF n(1) n(1) o(1), THEN conjunct1]
  note c = Repair_prefer_first_valid [where name = ContentTypeFieldName and fieldNames = first_valid_names
      and occ = "?occ" and h = dates_and_types, OF n(2) n(2) o(2), THEN conjunct1]
  note m = Repair_prefer_first_valid [where name = MessageIdFieldName and fieldNames = first_valid_names
      and occ = "?occ" and h = dates_and_types, OF n(3) n(3) o(3), THEN conjunct1]
  have d': "(case find (\<lambda>f. Name f = DateFieldName \<and> Field_Valid f) (Fields dates_and_types) of
        None \<Rightarrow> filter (\<lambda>f. Name f = DateFieldName) (Fields dates_and_types)
      | Some firstValid \<Rightarrow>
          if DateFieldName = ContentTypeFieldName
          then filter (\<lambda>f. Name f = DateFieldName \<and> (ptr f = ptr firstValid \<or> Field_Valid f)) (Fields dates_and_types)
          else filter (\<lambda>f. Name f = DateFieldName \<and> ptr f = ptr firstValid) (Fields dates_and_types))
     = [plain_field 1 DateFieldName ''Mon, 1 Jan 2024 00:00:00 +0000'']"
    by code_simp
  have c': "(case find (\<lambda>f. Name f = ContentTypeFieldName \<and> Field_Valid f) (Fields dates_and_types) of
        None \<Rightarrow> filter (\<lambda>f. Name f = ContentTypeFieldName) (Fields dates_and_types)
      | Some firstValid \<Rightarrow>
          if ContentTypeFieldName = ContentTypeFieldName
          then filter (\<lambda>f. Name f = ContentTypeFieldName \<and> (ptr f = ptr firstValid \<or> Field_Valid f)) (Fields dates_and_types)
          else filter (\<lambda>f. Name f = ContentTypeFieldName \<and> ptr f = ptr firstValid) (Fields dates_and_types))
     = [content_type_field 4 ''text/plain'' True \<lparr>Type = ''text'', Subtype = ''plain'', Parameters = []\<rparr>,
        content_type_field 5 ''text/html'' True \<lparr>Type = ''text'', Subtype = ''html'', Parameters = []\<rparr>]"
    by code_simp
  have m': "(case find (\<lambda>f. Name f = MessageIdFieldName \<and> Field_Valid f) (Fields dates_and_types) of
        None \<Rightarrow> filter (\<lambda>f. Name f = MessageIdFieldName) (Fields dates_and_types)
      | Some firstValid \<Rightarrow>
          if MessageIdFieldName = ContentTypeFieldName
          then filter (\<lambda>f. Name f = MessageIdFieldName \<and> (ptr f = ptr firstValid \<or> Field_Valid f)) (Fields dates_and_types)
          else filter (\<lambda>f. Name f = MessageIdFieldName \<and> ptr f = ptr firstValid) (Fields dates_and_types))
     = [invalid_field 7 MessageIdFieldName ''one'', invalid_field 8 MessageIdFieldName ''two'']"
    by code_simp
  from d d' c c' m m' show ?thesis by simp
qed

end
